theory Spec2Isabelle
  imports
    Main
    "HOL-Library.Multiset"
    "HOL-Library.Char_ord"
    "HOL-Library.List_Lexorder"
    "HOL-Library.Sublist"
begin

section \<open>The parallel file search of cmd/file\_search.go\<close>

text \<open>
  The development embeds \<open>parallelWalk\<close> and \<open>walkInline\<close> of
  \<open>cmd/file_search.go\<close>. The goroutines of \<open>parallelWalk\<close> (the caller, the
  worker pool, the goroutine that closes the queue) become threads of an interleaving
  semantics: each thread has a program counter, a step of a thread performs at most one
  access to the shared variables (\<open>dirQueue\<close>, \<open>pending\<close>, \<open>scanned\<close>,
  \<open>found\<close>, \<open>matched\<close>), and a schedule (a list of thread identifiers) says
  which thread moves next. A blocked thread named by the schedule does not move.
\<close>

subsection \<open>Strings: strings.ToLower, strings.Contains, filepath.Join\<close>

text \<open>
  Strings are byte strings. Go's \<open>strings.ToLower\<close> first looks for a byte that is not
  ASCII (a byte \<open>c >= utf8.RuneSelf\<close>, that is \<open>0x80\<close>). When there is none, it
  maps the letters \<open>A\<close> to \<open>Z\<close> to \<open>a\<close> to \<open>z\<close> (the bit of value 32 is
  set, which adds \<open>'a' - 'A'\<close>) and keeps every other byte. Otherwise it returns
  \<open>strings.Map(unicode.ToLower, s)\<close>, which decodes the runes of the string, maps each
  of them through the case tables of the \<open>unicode\<close> package and encodes the result. That
  library function and its tables are not part of the program: they are the parameter
  \<open>lw\<close> of \<open>ToLower\<close>, and every theorem below holds for every such function.
\<close>

definition toLowerChar :: "char \<Rightarrow> char" where
  "toLowerChar c =
     (if CHR ''A'' \<le> c \<and> c \<le> CHR ''Z'' then
        (case c of Char b0 b1 b2 b3 b4 b5 b6 b7 \<Rightarrow> Char b0 b1 b2 b3 b4 True b6 b7)
      else c)"

definition isASCII :: "string \<Rightarrow> bool" where
  "isASCII s = list_all (\<lambda>c. c < CHR 0x80) s"

definition ToLower :: "(string \<Rightarrow> string) \<Rightarrow> string \<Rightarrow> string" where
  "ToLower lw s = (if isASCII s then map toLowerChar s else lw s)"

text \<open>\<open>strings.Contains s sub\<close>: \<open>sub\<close> occurs in \<open>s\<close> as a contiguous block.\<close>

fun Contains :: "string \<Rightarrow> string \<Rightarrow> bool" where
  "Contains [] sub = (sub = [])"
| "Contains (c # s) sub = (prefix sub (c # s) \<or> Contains s sub)"

text \<open>
  \<open>filepath.Join\<close> of the Go standard library for the separator \<open>/\<close>: the first
  non-empty element and everything after it are joined with the separator and the
  result is cleaned by \<open>filepath.Clean\<close> (empty and \<open>.\<close> elements are dropped, an
  inner \<open>..\<close> removes the element before it, a \<open>..\<close> at the start of a rooted path
  is dropped, the empty result is \<open>.\<close>).
\<close>

fun splitSep :: "string \<Rightarrow> string \<Rightarrow> string list" where
  "splitSep acc [] = [rev acc]"
| "splitSep acc (c # s) =
     (if c = CHR ''/'' then rev acc # splitSep [] s else splitSep (c # acc) s)"

fun cleanSegs :: "bool \<Rightarrow> string list \<Rightarrow> string list \<Rightarrow> string list" where
  "cleanSegs rooted st [] = rev st"
| "cleanSegs rooted st (x # xs) =
     (if x = [] \<or> x = ''.'' then cleanSegs rooted st xs
      else if x = ''..'' then
        (case st of
           [] \<Rightarrow> if rooted then cleanSegs rooted [] xs else cleanSegs rooted [x] xs
         | t # ts \<Rightarrow>
             if t = ''..'' then cleanSegs rooted (x # st) xs else cleanSegs rooted ts xs)
      else cleanSegs rooted (x # st) xs)"

fun joinSep :: "string list \<Rightarrow> string" where
  "joinSep [] = []"
| "joinSep [x] = x"
| "joinSep (x # y # ys) = x @ ''/'' @ joinSep (y # ys)"

definition Clean :: "string \<Rightarrow> string" where
  "Clean p =
     (let rooted = (p \<noteq> [] \<and> hd p = CHR ''/'');
          body = joinSep (cleanSegs rooted [] (splitSep [] p))
      in if rooted then ''/'' @ body else if body = [] then ''.'' else body)"

definition Join :: "string \<Rightarrow> string \<Rightarrow> string" where
  "Join dir name =
     (if dir \<noteq> [] then Clean (dir @ ''/'' @ name)
      else if name \<noteq> [] then Clean name
      else [])"

subsection \<open>Constants and types of the search\<close>

datatype SearchMode = ModeBoth | ModeFiles | ModeFolders

definition skipDirs :: "string set" where
  "skipDirs =
     {''$recycle.bin'', ''system volume information'', ''windows'', ''program files'',
      ''program files (x86)'', ''programdata'', ''.git'', ''node_modules'', ''.cache'',
      ''.tmp'', ''__pycache__'', ''.vs'', ''.idea'', ''.gradle'', ''vendor'', ''dist'',
      ''obj'', ''bin''}"

definition maxResults :: nat where
  "maxResults = 10000"

definition numWorkers :: nat where
  "numWorkers = 16"

text \<open>The capacity of \<open>dirQueue\<close>: \<open>make(chan string, 4096)\<close>.\<close>

definition queueCap :: nat where
  "queueCap = 4096"

subsection \<open>The file system snapshot\<close>

text \<open>
  A directory entry as \<open>os.ReadDir\<close> returns it: a name and whether it is a
  directory. A directory entry carries what \<open>os.ReadDir\<close> returns for its own path
  in the snapshot: \<open>None\<close> for an error, the list of its entries otherwise.
\<close>

datatype node = File string | Dir string "node list option"

fun entryName :: "node \<Rightarrow> string" where
  "entryName (File n) = n"
| "entryName (Dir n l) = n"

fun IsDir :: "node \<Rightarrow> bool" where
  "IsDir (File n) = False"
| "IsDir (Dir n l) = True"

fun ReadDir :: "node \<Rightarrow> node list option" where
  "ReadDir (File n) = None"
| "ReadDir (Dir n l) = l"

subsection \<open>The path classifier\<close>

text \<open>
  The test of lines 208 to 212, 261 and 295 to 299: a directory is skipped when
  \<open>skipSystemDirs\<close> is set and its lower-cased name is in \<open>skipDirs\<close> or begins
  with a dot.
\<close>

definition skipName :: "string \<Rightarrow> bool" where
  "skipName nameLower = (nameLower \<in> skipDirs \<or> (nameLower \<noteq> [] \<and> hd nameLower = CHR ''.''))"

definition pruned :: "(string \<Rightarrow> string) \<Rightarrow> bool \<Rightarrow> node \<Rightarrow> bool" where
  "pruned lw skipSystemDirs e = (IsDir e \<and> skipSystemDirs \<and> skipName (ToLower lw (entryName e)))"

text \<open>The match check of lines 230 to 240 and 307 to 317.\<close>

definition isMatch :: "(string \<Rightarrow> string) \<Rightarrow> string \<Rightarrow> SearchMode \<Rightarrow> string \<Rightarrow> node \<Rightarrow> bool" where
  "isMatch lw query mode dir e =
     ((Contains (ToLower lw (entryName e)) query
        \<or> Contains (ToLower lw (Join dir (entryName e))) query)
      \<and> (case mode of
            ModeBoth \<Rightarrow> True
          | ModeFiles \<Rightarrow> \<not> IsDir e
          | ModeFolders \<Rightarrow> IsDir e))"

subsection \<open>Threads and the shared state\<close>

text \<open>A work item: a directory path, with what \<open>os.ReadDir\<close> returns for it.\<close>

type_synonym item = "string \<times> node list option"

text \<open>
  The program counter of a worker goroutine (lines 186 to 250). \<open>Recv\<close> waits at
  \<open>range dirQueue\<close>; \<open>Chk\<close> is line 189; \<open>Done\<close> is a \<open>pending.Done()\<close>
  followed by the next receive; \<open>Loop\<close> is the head of the loop over the entries with the
  test of line 199; \<open>Scan\<close> is line 203 with the classification that follows it;
  \<open>Add\<close> is line 218; \<open>Send\<close> is the \<open>select\<close> of line 219;
  \<open>AfterInline\<close> is line 225, reached when \<open>walkInline\<close> has returned;
  \<open>Match\<close> is lines 230 to 243 and \<open>Found\<close> is line 244.
\<close>

datatype ppc =
    Recv
  | Exited
  | Chk item
  | Done
  | Loop string "node list"
  | Scan string node "node list"
  | Add string node "node list"
  | Send string node "node list"
  | AfterInline string node "node list"
  | Match string node "node list"
  | Found string "node list"

text \<open>
  An activation of \<open>walkInline\<close> (lines 282 to 325): \<open>IStart\<close> is line 283,
  \<open>ILoop\<close> the loop head with line 288, \<open>IScan\<close> line 291 with the classification
  and the recursive call of line 304, \<open>IMatch\<close> lines 307 to 320, \<open>IFound\<close> line 321.
\<close>

datatype ipc =
    IStart item
  | ILoop string "node list"
  | IScan string node "node list"
  | IMatch string node "node list"
  | IFound string "node list"

text \<open>A worker: its program counter and its stack of \<open>walkInline\<close> activations.\<close>

type_synonym worker = "ppc \<times> ipc list"

text \<open>
  The caller's goroutine (lines 253 to 278): \<open>MAdd\<close> and \<open>MSendRoot\<close> are
  \<open>enqueue(root)\<close>, \<open>MRead\<close> is line 256, \<open>MLoop\<close> the loop of line 258,
  \<open>MSend\<close> the send inside \<open>enqueue\<close> of line 264, \<open>MSpawn\<close> line 270,
  \<open>MWait\<close> is \<open>wg.Wait()\<close> and \<open>MRet\<close> is lines 277 and 278.
\<close>

datatype mpc =
    MAdd
  | MSendRoot
  | MRead
  | MLoop "node list"
  | MSend node "node list"
  | MSpawn
  | MWait
  | MRet

text \<open>The goroutine of lines 270 to 273.\<close>

datatype cpc = CNone | CWait | CClose | CDone

datatype tid = Main | Closer | Worker nat

record state =
  dirQueue :: "item list"
  closed :: bool
  pending :: int
  scanned :: nat
  found :: nat
  matched :: "string list"
  workers :: "worker list"
  mainpc :: mpc
  closer :: cpc
  panicked :: bool

text \<open>
  The arguments of \<open>parallelWalk\<close>, and what the library returns to it:
  \<open>rootDir\<close> is the result of \<open>os.ReadDir(root)\<close>, and \<open>mapLower\<close> is
  \<open>strings.Map(unicode.ToLower, s)\<close>, which \<open>strings.ToLower\<close> returns for a string
  \<open>s\<close> that is not ASCII.
\<close>

record config =
  root :: string
  rootDir :: "node list option"
  query :: string
  mode :: SearchMode
  skipSystemDirs :: bool
  mapLower :: "string \<Rightarrow> string"

definition childItem :: "string \<Rightarrow> node \<Rightarrow> item" where
  "childItem dir e = (Join dir (entryName e), ReadDir e)"

subsection \<open>The steps of walkInline\<close>

text \<open>
  One step of the topmost activation of \<open>walkInline\<close>: the shared state after the
  step, and the activations that replace the topmost one (none when it returns, the
  callee above it when it calls itself).
\<close>

fun walkInline_step :: "config \<Rightarrow> state \<Rightarrow> ipc \<Rightarrow> state \<times> ipc list" where
  "walkInline_step c s (IStart (dir, None)) = (s, [])"
| "walkInline_step c s (IStart (dir, Some es)) = (s, [ILoop dir es])"
| "walkInline_step c s (ILoop dir []) = (s, [])"
| "walkInline_step c s (ILoop dir (e # es)) =
     (if found s \<ge> maxResults then (s, []) else (s, [IScan dir e es]))"
| "walkInline_step c s (IScan dir e es) =
     (s\<lparr>scanned := scanned s + 1\<rparr>,
      if pruned (mapLower c) (skipSystemDirs c) e then [ILoop dir es]
      else if IsDir e then [IStart (childItem dir e), IMatch dir e es]
      else [IMatch dir e es])"
| "walkInline_step c s (IMatch dir e es) =
     (if isMatch (mapLower c) (query c) (mode c) dir e then
        (s\<lparr>matched := matched s @ [Join dir (entryName e)]\<rparr>, [IFound dir es])
      else (s, [ILoop dir es]))"
| "walkInline_step c s (IFound dir es) = (s\<lparr>found := found s + 1\<rparr>, [ILoop dir es])"

subsection \<open>The steps of a worker\<close>

text \<open>
  \<open>pending.Done()\<close> panics when the counter becomes negative, and a send on a closed
  channel panics.
\<close>

definition pendingDone :: "state \<Rightarrow> state" where
  "pendingDone s =
     (if pending s - 1 < 0 then s\<lparr>pending := pending s - 1, panicked := True\<rparr>
      else s\<lparr>pending := pending s - 1\<rparr>)"

text \<open>
  One step of a worker whose \<open>walkInline\<close> stack is empty: the shared state and the
  worker after the step, \<open>None\<close> when the worker is blocked or has exited.
\<close>

fun worker_step :: "config \<Rightarrow> state \<Rightarrow> ppc \<Rightarrow> (state \<times> worker) option" where
  "worker_step c s Recv =
     (case dirQueue s of
        x # xs \<Rightarrow> Some (s\<lparr>dirQueue := xs\<rparr>, (Chk x, []))
      | [] \<Rightarrow> if closed s then Some (s, (Exited, [])) else None)"
| "worker_step c s Exited = None"
| "worker_step c s (Chk (dir, l)) =
     (if found s \<ge> maxResults then Some (s, (Done, []))
      else case l of
             None \<Rightarrow> Some (s, (Done, []))
           | Some es \<Rightarrow> Some (s, (Loop dir es, [])))"
| "worker_step c s Done = Some (pendingDone s, (Recv, []))"
| "worker_step c s (Loop dir []) = Some (s, (Done, []))"
| "worker_step c s (Loop dir (e # es)) =
     (if found s \<ge> maxResults then Some (s, (Done, []))
      else Some (s, (Scan dir e es, [])))"
| "worker_step c s (Scan dir e es) =
     Some (s\<lparr>scanned := scanned s + 1\<rparr>,
           if pruned (mapLower c) (skipSystemDirs c) e then (Loop dir es, [])
           else if IsDir e then (Add dir e es, [])
           else (Match dir e es, []))"
| "worker_step c s (Add dir e es) = Some (s\<lparr>pending := pending s + 1\<rparr>, (Send dir e es, []))"
| "worker_step c s (Send dir e es) =
     (if closed s then Some (s\<lparr>panicked := True\<rparr>, (Send dir e es, []))
      else if length (dirQueue s) < queueCap then
        Some (s\<lparr>dirQueue := dirQueue s @ [childItem dir e]\<rparr>, (Match dir e es, []))
      else Some (s, (AfterInline dir e es, [IStart (childItem dir e)])))"
| "worker_step c s (AfterInline dir e es) = Some (pendingDone s, (Match dir e es, []))"
| "worker_step c s (Match dir e es) =
     (if isMatch (mapLower c) (query c) (mode c) dir e then
        Some (s\<lparr>matched := matched s @ [Join dir (entryName e)]\<rparr>, (Found dir es, []))
      else Some (s, (Loop dir es, [])))"
| "worker_step c s (Found dir es) = Some (s\<lparr>found := found s + 1\<rparr>, (Loop dir es, []))"

subsection \<open>The caller and the closing goroutine\<close>

fun main_step :: "config \<Rightarrow> state \<Rightarrow> mpc \<Rightarrow> state option" where
  "main_step c s MAdd = Some (s\<lparr>pending := pending s + 1, mainpc := MSendRoot\<rparr>)"
| "main_step c s MSendRoot =
     (if closed s then Some (s\<lparr>panicked := True\<rparr>)
      else if length (dirQueue s) < queueCap then
        Some (s\<lparr>dirQueue := dirQueue s @ [(root c, rootDir c)], mainpc := MRead\<rparr>)
      else None)"
| "main_step c s MRead =
     (case rootDir c of
        None \<Rightarrow> Some (s\<lparr>mainpc := MSpawn\<rparr>)
      | Some es \<Rightarrow> Some (s\<lparr>mainpc := MLoop es\<rparr>))"
| "main_step c s (MLoop []) = Some (s\<lparr>mainpc := MSpawn\<rparr>)"
| "main_step c s (MLoop (e # es)) =
     (if IsDir e \<and> \<not> pruned (mapLower c) (skipSystemDirs c) e then
        Some (s\<lparr>pending := pending s + 1, mainpc := MSend e es\<rparr>)
      else Some (s\<lparr>mainpc := MLoop es\<rparr>))"
| "main_step c s (MSend e es) =
     (if closed s then Some (s\<lparr>panicked := True\<rparr>)
      else if length (dirQueue s) < queueCap then
        Some (s\<lparr>dirQueue := dirQueue s @ [childItem (root c) e], mainpc := MLoop es\<rparr>)
      else None)"
| "main_step c s MSpawn = Some (s\<lparr>closer := CWait, mainpc := MWait\<rparr>)"
| "main_step c s MWait =
     (if list_all (\<lambda>x. x = (Exited, [])) (workers s) then Some (s\<lparr>mainpc := MRet\<rparr>)
      else None)"
| "main_step c s MRet = None"

fun closer_step :: "state \<Rightarrow> cpc \<Rightarrow> state option" where
  "closer_step s CNone = None"
| "closer_step s CWait = (if pending s = 0 then Some (s\<lparr>closer := CClose\<rparr>) else None)"
| "closer_step s CClose =
     (if closed s then Some (s\<lparr>panicked := True\<rparr>)
      else Some (s\<lparr>closed := True, closer := CDone\<rparr>))"
| "closer_step s CDone = None"

subsection \<open>Schedules\<close>

text \<open>
  A step of thread \<open>t\<close>: \<open>None\<close> when the thread is blocked, has finished or does
  not exist, or when the program has panicked.
\<close>

definition step :: "config \<Rightarrow> tid \<Rightarrow> state \<Rightarrow> state option" where
  "step c t s =
     (if panicked s then None
      else case t of
             Main \<Rightarrow> main_step c s (mainpc s)
           | Closer \<Rightarrow> closer_step s (closer s)
           | Worker w \<Rightarrow>
               if w < length (workers s) then
                 (case workers s ! w of
                    (p, f # fs) \<Rightarrow>
                      (case walkInline_step c s f of
                         (s', fs') \<Rightarrow> Some (s'\<lparr>workers := (workers s)[w := (p, fs' @ fs)]\<rparr>))
                  | (p, []) \<Rightarrow>
                      (case worker_step c s p of
                         None \<Rightarrow> None
                       | Some (s', wk) \<Rightarrow> Some (s'\<lparr>workers := (workers s)[w := wk]\<rparr>)))
               else None)"

fun exec :: "config \<Rightarrow> tid list \<Rightarrow> state \<Rightarrow> state" where
  "exec c [] s = s"
| "exec c (t # ts) s = (case step c t s of None \<Rightarrow> exec c ts s | Some s' \<Rightarrow> exec c ts s')"

text \<open>The state in which \<open>n\<close> workers have been started (line 184 to 251).\<close>

definition init :: "nat \<Rightarrow> state" where
  "init n =
     \<lparr>dirQueue = [], closed = False, pending = 0, scanned = 0, found = 0, matched = [],
      workers = replicate n (Recv, []), mainpc = MAdd, closer = CNone, panicked = False\<rparr>"

datatype error = ReadDirError

text \<open>What line 278 returns, once the caller has reached it.\<close>

definition result :: "config \<Rightarrow> state \<Rightarrow> (string list \<times> nat \<times> error option) option" where
  "result c s =
     (if mainpc s = MRet \<and> \<not> panicked s then
        Some (sort (matched s), scanned s,
              case rootDir c of None \<Rightarrow> Some ReadDirError | Some es \<Rightarrow> None)
      else None)"

text \<open>
  \<open>parallelWalk\<close> under a schedule, with a pool of \<open>n\<close> workers: the value returned,
  or \<open>None\<close> when the call has not returned at the end of the schedule. The first
  argument of \<open>parallelWalk\<close> is the lower-casing of the strings that are not ASCII.
\<close>

definition walk :: "nat \<Rightarrow> tid list \<Rightarrow> config \<Rightarrow> (string list \<times> nat \<times> error option) option" where
  "walk n sched c = result c (exec c sched (init n))"

definition parallelWalk ::
  "(string \<Rightarrow> string) \<Rightarrow> tid list \<Rightarrow> string \<Rightarrow> node list option \<Rightarrow> string \<Rightarrow> SearchMode \<Rightarrow> bool
     \<Rightarrow> (string list \<times> nat \<times> error option) option" where
  "parallelWalk lw sched r rd q m sk =
     walk numWorkers sched
       \<lparr>root = r, rootDir = rd, query = q, mode = m, skipSystemDirs = sk, mapLower = lw\<rparr>"

fun pendP :: "ppc \<Rightarrow> nat" where
  "pendP Recv = 0"
| "pendP Exited = 0"
| "pendP (Send d e es) = 2"
| "pendP (AfterInline d e es) = 2"
| "pendP p = 1"

fun pendM :: "mpc \<Rightarrow> nat" where
  "pendM MSendRoot = 1"
| "pendM (MSend e es) = 1"
| "pendM m = 0"

definition pendW :: "worker \<Rightarrow> nat" where
  "pendW wk = pendP (fst wk)"

fun isAfterInline :: "ppc \<Rightarrow> bool" where
  "isAfterInline (AfterInline d e es) = True"
| "isAfterInline p = False"

definition wf_worker :: "worker \<Rightarrow> bool" where
  "wf_worker wk = (snd wk = [] \<or> isAfterInline (fst wk))"

definition pendingSum :: "state \<Rightarrow> nat" where
  "pendingSum s = length (dirQueue s) + sum_list (map pendW (workers s)) + pendM (mainpc s)"

fun closerOK :: "cpc \<Rightarrow> mpc \<Rightarrow> bool \<Rightarrow> int \<Rightarrow> bool" where
  "closerOK CNone m cl p = (m \<noteq> MWait \<and> m \<noteq> MRet \<and> \<not> cl)"
| "closerOK CWait m cl p = ((m = MWait \<or> m = MRet) \<and> \<not> cl)"
| "closerOK CClose m cl p = ((m = MWait \<or> m = MRet) \<and> \<not> cl \<and> p = 0)"
| "closerOK CDone m cl p = ((m = MWait \<or> m = MRet) \<and> cl \<and> p = 0)"

definition struct_inv :: "state \<Rightarrow> bool" where
  "struct_inv s =
     (\<not> panicked s
      \<and> pending s = int (pendingSum s)
      \<and> list_all wf_worker (workers s)
      \<and> closerOK (closer s) (mainpc s) (closed s) (pending s)
      \<and> (closed s \<or> list_all (\<lambda>wk. fst wk \<noteq> Exited) (workers s))
      \<and> (mainpc s \<noteq> MRet \<or> list_all (\<lambda>wk. wk = (Exited, [])) (workers s)))"

fun inspected :: "(string \<Rightarrow> string) \<Rightarrow> bool \<Rightarrow> string \<Rightarrow> node list \<Rightarrow> (string \<times> node) list" where
  "inspected lw sk dir [] = []"
| "inspected lw sk dir (File n # es) = (dir, File n) # inspected lw sk dir es"
| "inspected lw sk dir (Dir n None # es) = (dir, Dir n None) # inspected lw sk dir es"
| "inspected lw sk dir (Dir n (Some kids) # es) =
     (dir, Dir n (Some kids))
       # (if pruned lw sk (Dir n (Some kids)) then [] else inspected lw sk (Join dir n) kids)
       @ inspected lw sk dir es"

definition itemEntries :: "(string \<Rightarrow> string) \<Rightarrow> bool \<Rightarrow> item \<Rightarrow> (string \<times> node) list" where
  "itemEntries lw sk it = (case snd it of None \<Rightarrow> [] | Some es \<Rightarrow> inspected lw sk (fst it) es)"

definition pathOf :: "string \<times> node \<Rightarrow> string" where
  "pathOf x = Join (fst x) (entryName (snd x))"

definition hit :: "config \<Rightarrow> string \<times> node \<Rightarrow> bool" where
  "hit c x =
     (\<not> pruned (mapLower c) (skipSystemDirs c) (snd x)
      \<and> isMatch (mapLower c) (query c) (mode c) (fst x) (snd x))"

definition matchesOf :: "config \<Rightarrow> (string \<times> node) list \<Rightarrow> string multiset" where
  "matchesOf c xs = mset (map pathOf (filter (hit c) xs))"

definition match1 :: "config \<Rightarrow> string \<Rightarrow> node \<Rightarrow> string multiset" where
  "match1 c dir e = (if isMatch (mapLower c) (query c) (mode c) dir e then {#Join dir (entryName e)#} else {#})"

definition seeds :: "config \<Rightarrow> node list \<Rightarrow> (string \<times> node) list" where
  "seeds c es =
     concat (map (\<lambda>e. if IsDir e \<and> \<not> pruned (mapLower c) (skipSystemDirs c) e
                       then itemEntries (mapLower c) (skipSystemDirs c) (childItem (root c) e) else []) es)"

definition allInspected :: "config \<Rightarrow> (string \<times> node) list" where
  "allInspected c =
     itemEntries (mapLower c) (skipSystemDirs c) (root c, rootDir c)
       @ (case rootDir c of None \<Rightarrow> [] | Some es \<Rightarrow> seeds c es)"

text \<open>Entries still to be inspected on behalf of a thread, and the entry whose match check is due.\<close>

fun restP :: "(string \<Rightarrow> string) \<Rightarrow> bool \<Rightarrow> ppc \<Rightarrow> (string \<times> node) list" where
  "restP lw sk (Chk it) = itemEntries lw sk it"
| "restP lw sk (Loop d es) = inspected lw sk d es"
| "restP lw sk (Scan d e es) = inspected lw sk d (e # es)"
| "restP lw sk (Add d e es) = itemEntries lw sk (childItem d e) @ inspected lw sk d es"
| "restP lw sk (Send d e es) = itemEntries lw sk (childItem d e) @ inspected lw sk d es"
| "restP lw sk (AfterInline d e es) = inspected lw sk d es"
| "restP lw sk (Match d e es) = inspected lw sk d es"
| "restP lw sk (Found d es) = inspected lw sk d es"
| "restP lw sk p = []"

fun curP :: "config \<Rightarrow> ppc \<Rightarrow> string multiset" where
  "curP c (Add d e es) = match1 c d e"
| "curP c (Send d e es) = match1 c d e"
| "curP c (AfterInline d e es) = match1 c d e"
| "curP c (Match d e es) = match1 c d e"
| "curP c p = {#}"

fun restI :: "(string \<Rightarrow> string) \<Rightarrow> bool \<Rightarrow> ipc \<Rightarrow> (string \<times> node) list" where
  "restI lw sk (IStart it) = itemEntries lw sk it"
| "restI lw sk (ILoop d es) = inspected lw sk d es"
| "restI lw sk (IScan d e es) = inspected lw sk d (e # es)"
| "restI lw sk (IMatch d e es) = inspected lw sk d es"
| "restI lw sk (IFound d es) = inspected lw sk d es"

fun curI :: "config \<Rightarrow> ipc \<Rightarrow> string multiset" where
  "curI c (IMatch d e es) = match1 c d e"
| "curI c f = {#}"

fun restM :: "config \<Rightarrow> mpc \<Rightarrow> (string \<times> node) list" where
  "restM c MAdd = allInspected c"
| "restM c MSendRoot = allInspected c"
| "restM c MRead = (case rootDir c of None \<Rightarrow> [] | Some es \<Rightarrow> seeds c es)"
| "restM c (MLoop es) = seeds c es"
| "restM c (MSend e es) = itemEntries (mapLower c) (skipSystemDirs c) (childItem (root c) e) @ seeds c es"
| "restM c m = []"

text \<open>The matches still to be recorded and the entries still to be counted by one frame.\<close>

definition todoP :: "config \<Rightarrow> ppc \<Rightarrow> string multiset" where
  "todoP c p = curP c p + matchesOf c (restP (mapLower c) (skipSystemDirs c) p)"

definition todoI :: "config \<Rightarrow> ipc \<Rightarrow> string multiset" where
  "todoI c f = curI c f + matchesOf c (restI (mapLower c) (skipSystemDirs c) f)"

definition todoW :: "config \<Rightarrow> worker \<Rightarrow> string multiset" where
  "todoW c wk = todoP c (fst wk) + sum_list (map (todoI c) (snd wk))"

definition todoQ :: "config \<Rightarrow> item \<Rightarrow> string multiset" where
  "todoQ c it = matchesOf c (itemEntries (mapLower c) (skipSystemDirs c) it)"

definition todo :: "config \<Rightarrow> state \<Rightarrow> string multiset" where
  "todo c s =
     matchesOf c (restM c (mainpc s)) + sum_list (map (todoQ c) (dirQueue s))
       + sum_list (map (todoW c) (workers s))"

definition expected :: "config \<Rightarrow> string multiset" where
  "expected c = matchesOf c (allInspected c)"

definition ev_inv :: "config \<Rightarrow> state \<Rightarrow> bool" where
  "ev_inv c s =
     (mset (matched s) + todo c s \<subseteq># expected c
      \<and> (maxResults \<le> found s \<or> mset (matched s) + todo c s = expected c))"

definition nQ :: "(string \<Rightarrow> string) \<Rightarrow> bool \<Rightarrow> item \<Rightarrow> nat" where
  "nQ lw sk it = length (itemEntries lw sk it)"

definition nW :: "(string \<Rightarrow> string) \<Rightarrow> bool \<Rightarrow> worker \<Rightarrow> nat" where
  "nW lw sk wk = length (restP lw sk (fst wk)) + sum_list (map (\<lambda>f. length (restI lw sk f)) (snd wk))"

definition scanTodo :: "config \<Rightarrow> state \<Rightarrow> nat" where
  "scanTodo c s =
     length (restM c (mainpc s)) + sum_list (map (nQ (mapLower c) (skipSystemDirs c)) (dirQueue s))
       + sum_list (map (nW (mapLower c) (skipSystemDirs c)) (workers s))"

definition sc_inv :: "config \<Rightarrow> state \<Rightarrow> bool" where
  "sc_inv c s =
     (scanned s + scanTodo c s \<le> length (allInspected c)
      \<and> (maxResults \<le> found s \<or> scanned s + scanTodo c s = length (allInspected c)))"

fun cP :: "ppc \<Rightarrow> nat" where
  "cP (Found d es) = 1"
| "cP p = 0"

fun cI :: "ipc \<Rightarrow> nat" where
  "cI (IFound d es) = 1"
| "cI f = 0"

definition cW :: "worker \<Rightarrow> nat" where
  "cW wk = cP (fst wk) + sum_list (map cI (snd wk))"

definition fd_inv :: "state \<Rightarrow> bool" where
  "fd_inv s = (length (matched s) = found s + sum_list (map cW (workers s)))"

definition finish :: "nat \<Rightarrow> tid list" where
  "finish n = map Worker [0..<n] @ [Main]"

definition eReport :: node where "eReport = File ''report.txt''"
definition eGit :: node where "eGit = Dir ''.git'' (Some [File ''config''])"
definition eABC :: node where "eABC = Dir ''ABC123'' (Some [])"
definition eAbc :: node where "eAbc = Dir ''abc'' (Some [eReport])"
definition eNM :: node where
  "eNM = Dir ''node_modules'' (Some [Dir ''pkg'' (Some [File ''index.js''])])"
definition pRoot :: string where "pRoot = ''root''"
definition pABC :: string where "pABC = ''root/ABC123''"
definition pAbc :: string where "pAbc = ''root/abc''"
definition pRep :: string where "pRep = ''root/abc/report.txt''"
definition qAbc :: string where "qAbc = ''abc''"

definition tree2 :: "node list" where
  "tree2 =
     [Dir ''.git'' (Some [File ''config'']),
      Dir ''ABC123'' (Some []),
      Dir ''abc'' (Some [File ''report.txt'']),
      Dir ''node_modules'' (Some [Dir ''pkg'' (Some [File ''index.js''])])]"

definition cfg2 :: "(string \<Rightarrow> string) \<Rightarrow> config" where
  "cfg2 lw =
     \<lparr>root = pRoot, rootDir = Some [eGit, eABC, eAbc, eNM], query = qAbc, mode = ModeBoth,
      skipSystemDirs = True, mapLower = lw\<rparr>"

text \<open>The same tree and root, for any query and mode.\<close>

definition cfgS :: "(string \<Rightarrow> string) \<Rightarrow> string \<Rightarrow> SearchMode \<Rightarrow> config" where
  "cfgS lw q m =
     \<lparr>root = pRoot, rootDir = Some [eGit, eABC, eAbc, eNM], query = q, mode = m,
      skipSystemDirs = True, mapLower = lw\<rparr>"

definition w8 :: "tid list" where
  "w8 = [Worker 0, Worker 0, Worker 0, Worker 0, Worker 0, Worker 0, Worker 0, Worker 0]"

definition sched2 :: "tid list" where
  "sched2 =
     [Main, Main, Main, Main, Main, Main, Main, Main, Main, Main, Main]
       @ w8 @ w8 @ w8 @ w8 @ w8 @ w8 @ [Closer, Closer]"

fun treeEntries :: "node list \<Rightarrow> (string list \<times> node) list" where
  "treeEntries [] = []"
| "treeEntries (File n # es) = ([n], File n) # treeEntries es"
| "treeEntries (Dir n None # es) = ([n], Dir n None) # treeEntries es"
| "treeEntries (Dir n (Some kids) # es) =
     ([n], Dir n (Some kids)) # map (\<lambda>(ns, x). (n # ns, x)) (treeEntries kids) @ treeEntries es"

definition visible :: "(string \<Rightarrow> string) \<Rightarrow> bool \<Rightarrow> string list \<Rightarrow> bool" where
  "visible lw sk ns = list_all (\<lambda>n. \<not> (sk \<and> skipName (ToLower lw n))) (butlast ns)"

definition chainPath :: "string \<Rightarrow> string list \<Rightarrow> string" where
  "chainPath dir ns = foldl Join dir ns"

definition visibleEntries :: "(string \<Rightarrow> string) \<Rightarrow> bool \<Rightarrow> string \<Rightarrow> node list \<Rightarrow> (string \<times> node) list" where
  "visibleEntries lw sk d es =
     map (\<lambda>(ns, x). (chainPath d (butlast ns), x))
       (filter (\<lambda>(ns, x). visible lw sk ns) (treeEntries es))"

definition cfg :: "(string \<Rightarrow> string) \<Rightarrow> string \<Rightarrow> node list option \<Rightarrow> string \<Rightarrow> SearchMode \<Rightarrow> bool \<Rightarrow> config" where
  "cfg lw r rd q m sk = \<lparr>root = r, rootDir = rd, query = q, mode = m, skipSystemDirs = sk, mapLower = lw\<rparr>"

definition modeOK :: "SearchMode \<Rightarrow> node \<Rightarrow> bool" where
  "modeOK m x = (case m of ModeBoth \<Rightarrow> True | ModeFiles \<Rightarrow> \<not> IsDir x | ModeFolders \<Rightarrow> IsDir x)"

definition eEnv :: node where "eEnv = File ''.env''"
definition pR :: string where "pR = ''r''"
definition pEnv :: string where "pEnv = ''r/.env''"

definition cfg3 :: "(string \<Rightarrow> string) \<Rightarrow> SearchMode \<Rightarrow> config" where
  "cfg3 lw m = \<lparr>root = pR, rootDir = Some [eEnv], query = [], mode = m, skipSystemDirs = True, mapLower = lw\<rparr>"

definition sched3 :: "tid list" where
  "sched3 = [Main, Main, Main, Main, Main, Main] @ w8 @ [Closer, Closer]"

definition sched7 :: "tid list" where
  "sched7 = [Main, Main, Main, Main, Worker 0, Worker 0, Worker 0, Closer, Closer]"

text \<open>
  A bound on the number of steps still to be taken: the weight of the directories still to
  be listed, plus what is left of the current activation of each thread.
\<close>

fun wtL :: "node list \<Rightarrow> nat" where
  "wtL [] = 0"
| "wtL (File n # es) = 16 + wtL es"
| "wtL (Dir n None # es) = 16 + wtL es"
| "wtL (Dir n (Some kids) # es) = 16 + wtL kids + wtL es"

definition wtI :: "item \<Rightarrow> nat" where
  "wtI it = 6 + (case snd it of None \<Rightarrow> 0 | Some es \<Rightarrow> wtL es)"

definition wtE :: "node \<Rightarrow> nat" where
  "wtE e = wtI (childItem [] e)"

fun potP :: "ppc \<Rightarrow> nat" where
  "potP Exited = 0"
| "potP Recv = 1"
| "potP Done = 2"
| "potP (Chk it) = wtI it"
| "potP (Loop d es) = 3 + wtL es"
| "potP (Scan d e es) = 2 + wtL (e # es)"
| "potP (Add d e es) = 1 + wtL (e # es)"
| "potP (Send d e es) = wtL (e # es)"
| "potP (AfterInline d e es) = 6 + wtL es"
| "potP (Match d e es) = 5 + wtL es"
| "potP (Found d es) = 4 + wtL es"

fun potI :: "ipc \<Rightarrow> nat" where
  "potI (IStart it) = wtI it"
| "potI (ILoop d es) = 3 + wtL es"
| "potI (IScan d e es) = 2 + wtL (e # es)"
| "potI (IMatch d e es) = 5 + wtL es"
| "potI (IFound d es) = 4 + wtL es"

definition potW :: "worker \<Rightarrow> nat" where
  "potW wk = potP (fst wk) + sum_list (map potI (snd wk))"

fun wtSeeds :: "string \<Rightarrow> node list \<Rightarrow> nat" where
  "wtSeeds r [] = 0"
| "wtSeeds r (e # es) = 2 + wtI (childItem r e) + wtSeeds r es"

fun potM :: "config \<Rightarrow> mpc \<Rightarrow> nat" where
  "potM c MRet = 0"
| "potM c MWait = 1"
| "potM c MSpawn = 4"
| "potM c (MLoop es) = 5 + wtSeeds (root c) es"
| "potM c (MSend e es) = 6 + wtI (childItem (root c) e) + wtSeeds (root c) es"
| "potM c MRead = 6 + (case rootDir c of None \<Rightarrow> 0 | Some es \<Rightarrow> wtSeeds (root c) es)"
| "potM c MSendRoot =
     7 + wtI (root c, rootDir c) + (case rootDir c of None \<Rightarrow> 0 | Some es \<Rightarrow> wtSeeds (root c) es)"
| "potM c MAdd =
     8 + wtI (root c, rootDir c) + (case rootDir c of None \<Rightarrow> 0 | Some es \<Rightarrow> wtSeeds (root c) es)"

fun potC :: "cpc \<Rightarrow> nat" where
  "potC CNone = 0"
| "potC CWait = 2"
| "potC CClose = 1"
| "potC CDone = 0"

definition potential :: "config \<Rightarrow> state \<Rightarrow> nat" where
  "potential c s =
     potM c (mainpc s) + potC (closer s) + sum_list (map wtI (dirQueue s))
       + sum_list (map potW (workers s))"

subsection \<open>A worker lists a run of files\<close>

definition fileSteps :: "nat \<Rightarrow> nat \<Rightarrow> nat \<Rightarrow> tid list" where
  "fileSteps w k n = concat (replicate n (replicate k (Worker w)))"

subsection \<open>A directory of ten thousand files\<close>

definition digitChar :: "nat \<Rightarrow> char" where
  "digitChar k = ''0123456789'' ! k"

definition fname :: "nat \<Rightarrow> string" where
  "fname i =
     [CHR ''f'', digitChar (i div 1000 mod 10), digitChar (i div 100 mod 10),
      digitChar (i div 10 mod 10), digitChar (i mod 10)]"

definition fnames :: "string list" where
  "fnames = map fname [0..<9999]"

definition bigFiles :: "node list" where
  "bigFiles = map File (fnames @ [''z''])"

definition bigDir :: node where
  "bigDir = Dir ''d'' (Some bigFiles)"

definition pD :: string where "pD = ''r/d''"

definition cfgBig :: "(string \<Rightarrow> string) \<Rightarrow> SearchMode \<Rightarrow> config" where
  "cfgBig lw m = \<lparr>root = pR, rootDir = Some [bigDir], query = [], mode = m, skipSystemDirs = True, mapLower = lw\<rparr>"

definition mainSteps :: "tid list" where
  "mainSteps = [Main, Main, Main, Main, Main, Main, Main]"

definition w0 :: "nat \<Rightarrow> tid list" where
  "w0 k = replicate k (Worker 0)"

definition w1 :: "nat \<Rightarrow> tid list" where
  "w1 k = replicate k (Worker 1)"

text \<open>One worker does everything, in mode Both.\<close>

definition schedY :: "tid list" where
  "schedY = (mainSteps @ w0 12) @ fileSteps 0 4 9999 @ (w0 5 @ [Closer, Closer])"

text \<open>One worker does everything, in mode Files and in mode Folders.\<close>

definition schedF :: "tid list" where
  "schedF = (mainSteps @ w0 11) @ fileSteps 0 4 10000 @ (w0 5 @ [Closer, Closer])"

definition schedD :: "tid list" where
  "schedD =
     (mainSteps @ w0 12) @ fileSteps 0 3 10000 @ w0 4 @ fileSteps 0 3 10000
       @ (w0 2 @ [Closer, Closer])"

text \<open>
  Two workers list the directory \<open>d\<close>, which is queued twice: the second worker records
  9998 matches, both workers pass the test of line 199 while \<open>found\<close> is 9999, and both
  record a match.
\<close>

definition schedX :: "tid list" where
  "schedX =
     (mainSteps @ w0 10 @ w1 2) @ fileSteps (Suc 0) 4 9998
       @ (w1 1 @ w0 3 @ w1 3 @ w0 5 @ w1 2 @ [Closer, Closer])"

definition fnamesA :: "string list" where
  "fnamesA = map fname [0..<9998]"

definition bigRest :: "node list" where
  "bigRest = map File (map fname [1..<9999] @ [''z''])"

subsection \<open>A directory whose name is not ASCII\<close>

text \<open>
  The root \<open>r\<close> holds two directories, each with the file \<open>x.txt\<close>: one is named
  \<open>keep\<close>, the name of the other is \<open>D\<close>, the rune U+0130, \<open>S\<close>, \<open>T\<close>.
\<close>

definition nameDI :: string where "nameDI = ''D'' @ [CHR 0xC4, CHR 0xB0] @ ''ST''"
definition eX :: node where "eX = File ''x.txt''"
definition eDI :: node where "eDI = Dir nameDI (Some [eX])"
definition eKeep :: node where "eKeep = Dir ''keep'' (Some [eX])"
definition pKeep :: string where "pKeep = ''r/keep''"
definition pKX :: string where "pKX = ''r/keep/x.txt''"
definition qX :: string where "qX = ''x''"

definition cfgI :: "(string \<Rightarrow> string) \<Rightarrow> config" where
  "cfgI lw =
     \<lparr>root = pR, rootDir = Some [eDI, eKeep], query = qX, mode = ModeBoth,
      skipSystemDirs = True, mapLower = lw\<rparr>"

section \<open>Proofs\<close>

lemma sum_list_upd:
  fixes f :: "'b \<Rightarrow> 'a::comm_monoid_add"
  shows "i < length xs \<Longrightarrow> sum_list (map f (xs[i := y])) + f (xs ! i) = sum_list (map f xs) + f y"
proof (induction xs arbitrary: i)
  case Nil
  then show ?case by simp
next
  case (Cons x xs)
  show ?case
  proof (cases i)
    case 0
    then show ?thesis by (simp add: ac_simps)
  next
    case (Suc j)
    with Cons.prems have "j < length xs" by simp
    from Cons.IH[OF this] Suc show ?thesis
      by (simp add: add.assoc)
  qed
qed

lemma struct_inv_init: "struct_inv (init n)"
  by (simp add: struct_inv_def init_def pendingSum_def pendW_def wf_worker_def list_all_iff)

lemma closerOK_pending: "closerOK k m cl p \<Longrightarrow> cl \<Longrightarrow> p = 0"
  by (cases k) auto

lemma closerOK_keep: "closerOK k m cl p \<Longrightarrow> (k = CClose \<or> k = CDone \<Longrightarrow> p' = p) \<Longrightarrow> closerOK k m cl p'"
  by (cases k) auto

text \<open>Local facts about a step of a worker.\<close>

lemma worker_step_frame:
  "worker_step c s p = Some (s', wk) \<Longrightarrow>
     mainpc s' = mainpc s \<and> closer s' = closer s \<and> closed s' = closed s
     \<and> workers s' = workers s \<and> wf_worker wk \<and> p \<noteq> Exited \<and> (fst wk = Exited \<longrightarrow> closed s)"
  by (cases "(c, s, p)" rule: worker_step.cases)
     (auto simp: pendingDone_def wf_worker_def split: list.splits if_splits option.splits)

lemma worker_step_pending:
  "worker_step c s p = Some (s', wk) \<Longrightarrow>
     pending s' + int (length (dirQueue s) + pendP p)
       = pending s + int (length (dirQueue s') + pendP (fst wk))"
  by (cases "(c, s, p)" rule: worker_step.cases)
     (auto simp: pendingDone_def split: list.splits if_splits option.splits)

lemma worker_step_panic:
  "worker_step c s p = Some (s', wk) \<Longrightarrow> \<not> panicked s \<Longrightarrow> int (pendP p) \<le> pending s
     \<Longrightarrow> (closed s \<Longrightarrow> pendP p = 0) \<Longrightarrow> \<not> panicked s'"
  by (cases "(c, s, p)" rule: worker_step.cases)
     (auto simp: pendingDone_def split: list.splits if_splits option.splits)

lemma worker_step_idle:
  "worker_step c s p = Some (s', wk) \<Longrightarrow> pendP p = 0 \<Longrightarrow> dirQueue s = []
     \<Longrightarrow> pending s' = pending s \<and> dirQueue s' = [] \<and> wk = (Exited, [])"
  by (cases "(c, s, p)" rule: worker_step.cases)
     (auto simp: pendingDone_def split: list.splits if_splits option.splits)

lemma walkInline_step_frame:
  "walkInline_step c s f = (s', fs) \<Longrightarrow>
     mainpc s' = mainpc s \<and> closer s' = closer s \<and> closed s' = closed s
     \<and> workers s' = workers s \<and> pending s' = pending s \<and> dirQueue s' = dirQueue s
     \<and> panicked s' = panicked s"
  by (cases "(c, s, f)" rule: walkInline_step.cases) (auto split: if_splits)

lemma pendW_le: "w < length ws \<Longrightarrow> pendW (ws ! w) \<le> sum_list (map pendW ws)"
  by (simp add: member_le_sum_list)

lemma list_all_upd: "list_all P xs \<Longrightarrow> P y \<Longrightarrow> list_all P (xs[i := y])"
  by (induction xs arbitrary: i) (auto split: nat.splits)

lemma list_all_nthD: "list_all P xs \<Longrightarrow> i < length xs \<Longrightarrow> P (xs ! i)"
  by (simp add: list_all_length)

lemma struct_inv_worker_pool:
  assumes inv: "struct_inv s" and w: "w < length (workers s)"
    and wk: "workers s ! w = (p, [])"
    and st: "worker_step c s p = Some (s1, wk')"
  shows "struct_inv (s1\<lparr>workers := (workers s)[w := wk']\<rparr>)"
proof -
  let ?s' = "s1\<lparr>workers := (workers s)[w := wk']\<rparr>"
  have np: "\<not> panicked s" and acc: "pending s = int (pendingSum s)"
    and wf: "list_all wf_worker (workers s)"
    and ck: "closerOK (closer s) (mainpc s) (closed s) (pending s)"
    and ex: "closed s \<or> list_all (\<lambda>wk. fst wk \<noteq> Exited) (workers s)"
    and ret: "mainpc s \<noteq> MRet \<or> list_all (\<lambda>wk. wk = (Exited, [])) (workers s)"
    using inv unfolding struct_inv_def by blast+
  note fr = worker_step_frame[OF st]
  from pendW_le[OF w] wk have ple: "pendP p \<le> sum_list (map pendW (workers s))"
    by (simp add: pendW_def)
  then have "pendP p \<le> pendingSum s"
    by (simp add: pendingSum_def)
  then have ple': "int (pendP p) \<le> pending s"
    using acc by simp
  have ps0: "pendingSum s = 0" if "pending s = 0"
    using that acc by simp
  have cl0: "pendP p = 0" if "pending s = 0"
    using ps0[OF that] \<open>pendP p \<le> pendingSum s\<close> by simp
  have q0: "dirQueue s = []" if "pending s = 0"
    using ps0[OF that] by (simp add: pendingSum_def)
  have c1: "\<not> panicked ?s'"
    using worker_step_panic[OF st np ple'] cl0 closerOK_pending[OF ck] by simp
  have upd: "sum_list (map pendW ((workers s)[w := wk'])) + pendP p
               = sum_list (map pendW (workers s)) + pendP (fst wk')"
    using sum_list_upd[OF w, of pendW wk'] wk by (simp add: pendW_def)
  have c2: "pending ?s' = int (pendingSum ?s')"
    using worker_step_pending[OF st] upd fr acc by (simp add: pendingSum_def)
  have c3: "list_all wf_worker (workers ?s')"
    using wf fr by (simp add: list_all_upd)
  have "closerOK (closer s) (mainpc s) (closed s) (pending s1)"
  proof (rule closerOK_keep[OF ck])
    assume "closer s = CClose \<or> closer s = CDone"
    with ck have "pending s = 0" by auto
    with worker_step_idle[OF st] cl0 q0 show "pending s1 = pending s" by simp
  qed
  then have c4: "closerOK (closer ?s') (mainpc ?s') (closed ?s') (pending ?s')"
    using fr by simp
  have c5: "closed ?s' \<or> list_all (\<lambda>wk. fst wk \<noteq> Exited) (workers ?s')"
  proof (cases "closed s")
    case True
    then show ?thesis using fr by simp
  next
    case False
    with ex fr have "list_all (\<lambda>wk. fst wk \<noteq> Exited) (workers s)" "fst wk' \<noteq> Exited"
      by auto
    then show ?thesis by (simp add: list_all_upd)
  qed
  have "mainpc s \<noteq> MRet"
  proof
    assume "mainpc s = MRet"
    with ret have "list_all (\<lambda>wk. wk = (Exited, [])) (workers s)" by simp
    from list_all_nthD[OF this w] wk fr show False by simp
  qed
  then have c6: "mainpc ?s' \<noteq> MRet \<or> list_all (\<lambda>wk. wk = (Exited, [])) (workers ?s')"
    using fr by simp
  from c1 c2 c3 c4 c5 c6 show ?thesis
    unfolding struct_inv_def by blast
qed

lemma struct_inv_worker_inline:
  assumes inv: "struct_inv s" and w: "w < length (workers s)"
    and wk: "workers s ! w = (p, f # fs)"
    and st: "walkInline_step c s f = (s1, fs')"
  shows "struct_inv (s1\<lparr>workers := (workers s)[w := (p, fs' @ fs)]\<rparr>)"
proof -
  let ?s' = "s1\<lparr>workers := (workers s)[w := (p, fs' @ fs)]\<rparr>"
  have np: "\<not> panicked s" and acc: "pending s = int (pendingSum s)"
    and wf: "list_all wf_worker (workers s)"
    and ck: "closerOK (closer s) (mainpc s) (closed s) (pending s)"
    and ex: "closed s \<or> list_all (\<lambda>wk. fst wk \<noteq> Exited) (workers s)"
    and ret: "mainpc s \<noteq> MRet \<or> list_all (\<lambda>wk. wk = (Exited, [])) (workers s)"
    using inv unfolding struct_inv_def by blast+
  note fr = walkInline_step_frame[OF st]
  from list_all_nthD[OF wf w] wk have ai: "isAfterInline p"
    by (simp add: wf_worker_def)
  then have pne: "p \<noteq> Exited" by auto
  have c1: "\<not> panicked ?s'" using np fr by simp
  have upd: "sum_list (map pendW ((workers s)[w := (p, fs' @ fs)]))
               = sum_list (map pendW (workers s))"
    using sum_list_upd[OF w, of pendW "(p, fs' @ fs)"] wk by (simp add: pendW_def)
  have c2: "pending ?s' = int (pendingSum ?s')"
    using upd fr acc by (simp add: pendingSum_def)
  have c3: "list_all wf_worker (workers ?s')"
    using wf fr ai by (simp add: list_all_upd wf_worker_def)
  have c4: "closerOK (closer ?s') (mainpc ?s') (closed ?s') (pending ?s')"
    using ck fr by simp
  have c5: "closed ?s' \<or> list_all (\<lambda>wk. fst wk \<noteq> Exited) (workers ?s')"
    using ex fr pne by (auto simp: list_all_upd)
  have "mainpc s \<noteq> MRet"
  proof
    assume "mainpc s = MRet"
    with ret have "list_all (\<lambda>wk. wk = (Exited, [])) (workers s)" by simp
    from list_all_nthD[OF this w] wk show False by simp
  qed
  then have c6: "mainpc ?s' \<noteq> MRet \<or> list_all (\<lambda>wk. wk = (Exited, [])) (workers ?s')"
    using fr by simp
  from c1 c2 c3 c4 c5 c6 show ?thesis
    unfolding struct_inv_def by blast
qed

text \<open>Local facts about a step of the caller and of the closing goroutine.\<close>

lemma main_step_frame:
  "main_step c s m = Some s' \<Longrightarrow> mainpc s = m \<Longrightarrow>
     workers s' = workers s \<and> closed s' = closed s \<and> scanned s' = scanned s
     \<and> found s' = found s \<and> matched s' = matched s \<and> m \<noteq> MRet
     \<and> (mainpc s' = MRet \<longrightarrow> list_all (\<lambda>wk. wk = (Exited, [])) (workers s))"
  by (cases "(c, s, m)" rule: main_step.cases) (auto split: if_splits option.splits)

lemma main_step_pending:
  "main_step c s m = Some s' \<Longrightarrow> mainpc s = m \<Longrightarrow>
     pending s' + int (length (dirQueue s) + pendM m)
       = pending s + int (length (dirQueue s') + pendM (mainpc s'))"
  by (cases "(c, s, m)" rule: main_step.cases) (auto split: if_splits option.splits)

lemma main_step_closer:
  "main_step c s m = Some s' \<Longrightarrow> mainpc s = m \<Longrightarrow> \<not> panicked s \<Longrightarrow> closerOK (closer s) m (closed s) (pending s)
     \<Longrightarrow> \<not> panicked s' \<and> closerOK (closer s') (mainpc s') (closed s') (pending s')"
  by (cases "(c, s, m)" rule: main_step.cases; cases "closer s")
     (auto split: if_splits option.splits)

lemma closer_step_frame:
  "closer_step s k = Some s' \<Longrightarrow>
     workers s' = workers s \<and> dirQueue s' = dirQueue s \<and> mainpc s' = mainpc s
     \<and> pending s' = pending s \<and> scanned s' = scanned s \<and> found s' = found s
     \<and> matched s' = matched s \<and> (closed s \<longrightarrow> closed s')"
  by (cases "(s, k)" rule: closer_step.cases) (auto split: if_splits)

lemma closer_step_closer:
  "closer_step s k = Some s' \<Longrightarrow> \<not> panicked s \<Longrightarrow> closerOK k m (closed s) (pending s)
     \<Longrightarrow> \<not> panicked s' \<and> closerOK (closer s') m (closed s') (pending s)"
  by (cases "(s, k)" rule: closer_step.cases) (auto split: if_splits)

lemma struct_inv_main:
  assumes inv: "struct_inv s" and st: "main_step c s (mainpc s) = Some s'"
  shows "struct_inv s'"
proof -
  have np: "\<not> panicked s" and acc: "pending s = int (pendingSum s)"
    and wf: "list_all wf_worker (workers s)"
    and ck: "closerOK (closer s) (mainpc s) (closed s) (pending s)"
    and ex: "closed s \<or> list_all (\<lambda>wk. fst wk \<noteq> Exited) (workers s)"
    and ret: "mainpc s \<noteq> MRet \<or> list_all (\<lambda>wk. wk = (Exited, [])) (workers s)"
    using inv unfolding struct_inv_def by blast+
  note fr = main_step_frame[OF st refl]
  note c14 = main_step_closer[OF st refl np ck]
  have c2: "pending s' = int (pendingSum s')"
    using main_step_pending[OF st refl] fr acc by (simp add: pendingSum_def)
  have c3: "list_all wf_worker (workers s')" using wf fr by simp
  have c5: "closed s' \<or> list_all (\<lambda>wk. fst wk \<noteq> Exited) (workers s')"
    using ex fr by simp
  have c6: "mainpc s' \<noteq> MRet \<or> list_all (\<lambda>wk. wk = (Exited, [])) (workers s')"
    using fr by auto
  from c14 c2 c3 c5 c6 show ?thesis
    unfolding struct_inv_def by blast
qed

lemma struct_inv_closer:
  assumes inv: "struct_inv s" and st: "closer_step s (closer s) = Some s'"
  shows "struct_inv s'"
proof -
  have np: "\<not> panicked s" and acc: "pending s = int (pendingSum s)"
    and wf: "list_all wf_worker (workers s)"
    and ck: "closerOK (closer s) (mainpc s) (closed s) (pending s)"
    and ex: "closed s \<or> list_all (\<lambda>wk. fst wk \<noteq> Exited) (workers s)"
    and ret: "mainpc s \<noteq> MRet \<or> list_all (\<lambda>wk. wk = (Exited, [])) (workers s)"
    using inv unfolding struct_inv_def by blast+
  note fr = closer_step_frame[OF st]
  from closer_step_closer[OF st np ck] fr
  have c14: "\<not> panicked s'" "closerOK (closer s') (mainpc s') (closed s') (pending s')"
    by simp_all
  have c2: "pending s' = int (pendingSum s')"
    using fr acc by (simp add: pendingSum_def)
  have c3: "list_all wf_worker (workers s')" using wf fr by simp
  have c5: "closed s' \<or> list_all (\<lambda>wk. fst wk \<noteq> Exited) (workers s')"
    using ex fr by auto
  have c6: "mainpc s' \<noteq> MRet \<or> list_all (\<lambda>wk. wk = (Exited, [])) (workers s')"
    using ret fr by simp
  from c14 c2 c3 c5 c6 show ?thesis
    unfolding struct_inv_def by blast
qed

lemma struct_inv_step:
  assumes inv: "struct_inv s" and st: "step c t s = Some s'"
  shows "struct_inv s'"
proof (cases t)
  case Main
  with st have "main_step c s (mainpc s) = Some s'"
    by (simp add: step_def split: if_splits)
  with inv show ?thesis by (rule struct_inv_main)
next
  case Closer
  with st have "closer_step s (closer s) = Some s'"
    by (simp add: step_def split: if_splits)
  with inv show ?thesis by (rule struct_inv_closer)
next
  case (Worker w)
  with st have w: "w < length (workers s)"
    by (simp add: step_def split: if_splits)
  obtain p stk where wk: "workers s ! w = (p, stk)" by (cases "workers s ! w")
  show ?thesis
  proof (cases stk)
    case Nil
    with st Worker w wk obtain s1 wk' where
      "worker_step c s p = Some (s1, wk')" "s' = s1\<lparr>workers := (workers s)[w := wk']\<rparr>"
      by (auto simp: step_def split: if_splits option.splits)
    with struct_inv_worker_pool[OF inv w] wk Nil show ?thesis by simp
  next
    case (Cons f fs)
    obtain s1 fs' where wi: "walkInline_step c s f = (s1, fs')"
      by (cases "walkInline_step c s f")
    with st Worker w wk Cons have "s' = s1\<lparr>workers := (workers s)[w := (p, fs' @ fs)]\<rparr>"
      by (auto simp: step_def split: if_splits)
    with struct_inv_worker_inline[OF inv w _ wi] wk Cons show ?thesis by simp
  qed
qed

lemma struct_inv_exec: "struct_inv s \<Longrightarrow> struct_inv (exec c sched s)"
  by (induction sched arbitrary: s) (auto split: option.splits intro: struct_inv_step)

lemma inspected_Cons:
  "inspected lw sk dir (e # es) =
     (dir, e) # (if pruned lw sk e then [] else itemEntries lw sk (childItem dir e)) @ inspected lw sk dir es"
  by (cases "(lw, sk, dir, e # es)" rule: inspected.cases)
     (auto simp: itemEntries_def childItem_def)

lemma matchesOf_simps:
  "matchesOf c [] = {#}"
  "matchesOf c (xs @ ys) = matchesOf c xs + matchesOf c ys"
  by (simp_all add: matchesOf_def)

lemma matchesOf_inspected_Cons:
  "matchesOf c (inspected (mapLower c) (skipSystemDirs c) d (e # es)) =
     (if pruned (mapLower c) (skipSystemDirs c) e then {#}
      else match1 c d e + todoQ c (childItem d e))
     + matchesOf c (inspected (mapLower c) (skipSystemDirs c) d es)"
  by (simp add: inspected_Cons matchesOf_def hit_def match1_def pathOf_def todoQ_def)

lemma todoQ_file: "\<not> IsDir e \<Longrightarrow> todoQ c (childItem d e) = {#}"
  by (cases e) (simp_all add: todoQ_def childItem_def itemEntries_def matchesOf_def)

lemma todoI_simps:
  "todoI c (IStart it) = todoQ c it"
  "todoI c (ILoop d []) = {#}"
  "todoI c (ILoop d (e # es)) = todoI c (IScan d e es)"
  "todoI c (IScan d e es) =
     (if pruned (mapLower c) (skipSystemDirs c) e then {#} else match1 c d e + todoQ c (childItem d e))
     + todoI c (ILoop d es)"
  "todoI c (IMatch d e es) = match1 c d e + todoI c (ILoop d es)"
  "todoI c (IFound d es) = todoI c (ILoop d es)"
  by (simp_all add: todoI_def todoQ_def matchesOf_simps matchesOf_inspected_Cons)

lemma todoQ_None: "todoQ c (d, None) = {#}"
  by (simp add: todoQ_def itemEntries_def matchesOf_def)

lemma todoQ_Some: "todoQ c (d, Some es) = todoI c (ILoop d es)"
  by (simp add: todoQ_def itemEntries_def todoI_def)

lemma walkInline_step_todo:
  "walkInline_step c s f = (s', fs) \<Longrightarrow>
     mset (matched s') + sum_list (map (todoI c) fs) \<subseteq># mset (matched s) + todoI c f
     \<and> (found s < maxResults \<longrightarrow>
           mset (matched s') + sum_list (map (todoI c) fs) = mset (matched s) + todoI c f)
     \<and> found s \<le> found s'"
  by (cases "(c, s, f)" rule: walkInline_step.cases)
     (auto simp: todoI_simps todoQ_None todoQ_Some todoQ_file match1_def split: if_splits)

lemma todoP_simps:
  "todoP c Recv = {#}"
  "todoP c Exited = {#}"
  "todoP c Done = {#}"
  "todoP c (Chk it) = todoQ c it"
  "todoP c (Loop d es) = todoI c (ILoop d es)"
  "todoP c (Scan d e es) = todoI c (IScan d e es)"
  "todoP c (Add d e es) = match1 c d e + todoQ c (childItem d e) + todoI c (ILoop d es)"
  "todoP c (Send d e es) = match1 c d e + todoQ c (childItem d e) + todoI c (ILoop d es)"
  "todoP c (AfterInline d e es) = match1 c d e + todoI c (ILoop d es)"
  "todoP c (Match d e es) = match1 c d e + todoI c (ILoop d es)"
  "todoP c (Found d es) = todoI c (ILoop d es)"
  by (simp_all add: todoP_def todoI_def todoQ_def matchesOf_simps matchesOf_inspected_Cons)

lemma worker_step_todo:
  "worker_step c s p = Some (s', wk) \<Longrightarrow>
     mset (matched s') + sum_list (map (todoQ c) (dirQueue s')) + todoW c wk
        \<subseteq># mset (matched s) + sum_list (map (todoQ c) (dirQueue s)) + todoP c p
     \<and> (found s < maxResults \<longrightarrow>
           mset (matched s') + sum_list (map (todoQ c) (dirQueue s')) + todoW c wk
             = mset (matched s) + sum_list (map (todoQ c) (dirQueue s)) + todoP c p)
     \<and> found s \<le> found s'"
  by (cases "(c, s, p)" rule: worker_step.cases)
     (auto simp: todoW_def todoP_simps todoI_simps todoQ_None todoQ_Some todoQ_file match1_def
        pendingDone_def split: if_splits list.splits option.splits)

lemma seeds_simps:
  "seeds c [] = []"
  "seeds c (e # es) =
     (if IsDir e \<and> \<not> pruned (mapLower c) (skipSystemDirs c) e
      then itemEntries (mapLower c) (skipSystemDirs c) (childItem (root c) e) else []) @ seeds c es"
  by (simp_all add: seeds_def)

lemma main_step_todo:
  "main_step c s m = Some s' \<Longrightarrow> mainpc s = m \<Longrightarrow>
     matchesOf c (restM c (mainpc s')) + sum_list (map (todoQ c) (dirQueue s'))
       = matchesOf c (restM c m) + sum_list (map (todoQ c) (dirQueue s))"
  by (cases "(c, s, m)" rule: main_step.cases)
     (auto simp: matchesOf_simps seeds_simps allInspected_def todoQ_def
        split: if_splits option.splits)

lemma sum_list_split:
  fixes f :: "'b \<Rightarrow> 'a::comm_monoid_add"
  assumes "i < length xs"
  shows "\<exists>R. sum_list (map f xs) = R + f (xs ! i)
           \<and> (\<forall>y. sum_list (map f (xs[i := y])) = R + f y)"
proof -
  let ?R = "sum_list (map f (take i xs)) + sum_list (map f (drop (Suc i) xs))"
  have "xs = take i xs @ xs ! i # drop (Suc i) xs"
    using assms by (rule id_take_nth_drop)
  then have "sum_list (map f xs) = sum_list (map f (take i xs @ xs ! i # drop (Suc i) xs))"
    by simp
  then have a: "sum_list (map f xs) = ?R + f (xs ! i)"
    by (simp add: ac_simps)
  have b: "sum_list (map f (xs[i := y])) = ?R + f y" for y
    using assms by (simp add: upd_conv_take_nth_drop ac_simps)
  from a b show ?thesis by blast
qed

lemma todo_step:
  assumes st: "step c t s = Some s'"
  shows "mset (matched s') + todo c s' \<subseteq># mset (matched s) + todo c s
         \<and> (found s < maxResults \<longrightarrow> mset (matched s') + todo c s' = mset (matched s) + todo c s)
         \<and> found s \<le> found s'"
proof (cases t)
  case Main
  with st have ms: "main_step c s (mainpc s) = Some s'"
    by (simp add: step_def split: if_splits)
  from main_step_frame[OF ms refl] main_step_todo[OF ms refl] show ?thesis
    by (simp add: todo_def)
next
  case Closer
  with st have "closer_step s (closer s) = Some s'"
    by (simp add: step_def split: if_splits)
  from closer_step_frame[OF this] show ?thesis
    by (simp add: todo_def)
next
  case (Worker w)
  with st have w: "w < length (workers s)"
    by (simp add: step_def split: if_splits)
  obtain p stk where wk: "workers s ! w = (p, stk)" by (cases "workers s ! w")
  from sum_list_split[OF w, of "todoW c"] wk obtain R where
    old: "sum_list (map (todoW c) (workers s)) = R + todoW c (p, stk)" and
    new: "\<And>y. sum_list (map (todoW c) ((workers s)[w := y])) = R + todoW c y"
    by auto
  let ?M = "matchesOf c (restM c (mainpc s))"
  show ?thesis
  proof (cases stk)
    case Nil
    with st Worker w wk obtain s1 wk' where
      ws: "worker_step c s p = Some (s1, wk')" and s': "s' = s1\<lparr>workers := (workers s)[w := wk']\<rparr>"
      by (auto simp: step_def split: if_splits option.splits)
    note fr = worker_step_frame[OF ws]
    let ?A' = "mset (matched s1) + sum_list (map (todoQ c) (dirQueue s1)) + todoW c wk'"
    let ?A = "mset (matched s) + sum_list (map (todoQ c) (dirQueue s)) + todoP c p"
    from worker_step_todo[OF ws] have
      sub: "?A' \<subseteq># ?A" and eq: "found s < maxResults \<longrightarrow> ?A' = ?A" and mono: "found s \<le> found s1"
      by blast+
    have l: "mset (matched s') + todo c s' = ?A' + (?M + R)"
      using fr by (simp add: s' todo_def new ac_simps)
    have r: "mset (matched s) + todo c s = ?A + (?M + R)"
      using Nil by (simp add: todo_def old todoW_def ac_simps)
    from sub eq mono show ?thesis
      unfolding l r by (simp add: s')
  next
    case (Cons f fs)
    obtain s1 fs' where wi: "walkInline_step c s f = (s1, fs')"
      by (cases "walkInline_step c s f")
    with st Worker w wk Cons have s': "s' = s1\<lparr>workers := (workers s)[w := (p, fs' @ fs)]\<rparr>"
      by (auto simp: step_def split: if_splits)
    note fr = walkInline_step_frame[OF wi]
    let ?A' = "mset (matched s1) + sum_list (map (todoI c) fs')"
    let ?A = "mset (matched s) + todoI c f"
    let ?Q = "sum_list (map (todoQ c) (dirQueue s)) + todoP c p + sum_list (map (todoI c) fs)"
    from walkInline_step_todo[OF wi] have
      sub: "?A' \<subseteq># ?A" and eq: "found s < maxResults \<longrightarrow> ?A' = ?A" and mono: "found s \<le> found s1"
      by blast+
    have l: "mset (matched s') + todo c s' = ?A' + (?M + R + ?Q)"
      using fr by (simp add: s' todo_def new todoW_def ac_simps)
    have r: "mset (matched s) + todo c s = ?A + (?M + R + ?Q)"
      using Cons by (simp add: todo_def old todoW_def ac_simps)
    from sub eq mono show ?thesis
      unfolding l r by (simp add: s')
  qed
qed

lemma ev_inv_step: "ev_inv c s \<Longrightarrow> step c t s = Some s' \<Longrightarrow> ev_inv c s'"
  using todo_step[of c t s s'] unfolding ev_inv_def
  by (metis linorder_not_less order_trans subset_mset.order_trans)

lemma ev_inv_exec: "ev_inv c s \<Longrightarrow> ev_inv c (exec c sched s)"
  by (induction sched arbitrary: s) (auto split: option.splits intro: ev_inv_step)

lemma sum_list_replicate_zero: "sum_list (replicate n (0::'a::comm_monoid_add)) = 0"
  by (induction n) simp_all

lemma ev_inv_init: "ev_inv c (init n)"
  using sum_list_replicate_zero[of n, where 'a = "string multiset"]
  by (simp add: ev_inv_def init_def todo_def expected_def todoW_def todoP_def matchesOf_def)

lemma nQ_simps:
  "nQ lw sk (d, None) = 0"
  "nQ lw sk (d, Some es) = length (inspected lw sk d es)"
  by (simp_all add: nQ_def itemEntries_def)

lemma nQ_file: "\<not> IsDir e \<Longrightarrow> nQ lw sk (childItem d e) = 0"
  by (cases e) (simp_all add: nQ_def childItem_def itemEntries_def)

lemma length_inspected_Cons:
  "length (inspected lw sk d (e # es)) =
     Suc ((if pruned lw sk e then 0 else nQ lw sk (childItem d e)) + length (inspected lw sk d es))"
  by (simp add: inspected_Cons nQ_def)

lemma length_rest_simps:
  "length (restI lw sk (IStart it)) = nQ lw sk it"
  "length (restP lw sk (Chk it)) = nQ lw sk it"
  "length (restP lw sk (Add d e es)) = nQ lw sk (childItem d e) + length (inspected lw sk d es)"
  "length (restP lw sk (Send d e es)) = nQ lw sk (childItem d e) + length (inspected lw sk d es)"
  by (simp_all add: nQ_def)

lemma walkInline_step_scan:
  "walkInline_step c s f = (s', fs) \<Longrightarrow>
     scanned s' + sum_list (map (\<lambda>f. length (restI (mapLower c) (skipSystemDirs c) f)) fs)
        \<le> scanned s + length (restI (mapLower c) (skipSystemDirs c) f)
     \<and> (found s < maxResults \<longrightarrow>
           scanned s' + sum_list (map (\<lambda>f. length (restI (mapLower c) (skipSystemDirs c) f)) fs)
             = scanned s + length (restI (mapLower c) (skipSystemDirs c) f))
     \<and> length (matched s') + found s + cI f
           = length (matched s) + found s' + sum_list (map cI fs)"
  by (cases "(c, s, f)" rule: walkInline_step.cases)
     (auto simp: length_inspected_Cons nQ_file length_rest_simps nQ_simps
        simp del: restI.simps(1) restP.simps(1,4,5) split: if_splits)

lemma worker_step_scan:
  "worker_step c s p = Some (s', wk) \<Longrightarrow>
     scanned s' + sum_list (map (nQ (mapLower c) (skipSystemDirs c)) (dirQueue s')) + nW (mapLower c) (skipSystemDirs c) wk
        \<le> scanned s + sum_list (map (nQ (mapLower c) (skipSystemDirs c)) (dirQueue s))
             + length (restP (mapLower c) (skipSystemDirs c) p)
     \<and> (found s < maxResults \<longrightarrow>
           scanned s' + sum_list (map (nQ (mapLower c) (skipSystemDirs c)) (dirQueue s'))
               + nW (mapLower c) (skipSystemDirs c) wk
             = scanned s + sum_list (map (nQ (mapLower c) (skipSystemDirs c)) (dirQueue s))
               + length (restP (mapLower c) (skipSystemDirs c) p))
     \<and> length (matched s') + found s + cP p = length (matched s) + found s' + cW wk"
  by (cases "(c, s, p)" rule: worker_step.cases)
     (auto simp: nW_def cW_def length_inspected_Cons nQ_file length_rest_simps
        nQ_simps pendingDone_def simp del: restI.simps(1) restP.simps(1,4,5)
        split: if_splits list.splits option.splits)

lemma main_step_scan:
  "main_step c s m = Some s' \<Longrightarrow> mainpc s = m \<Longrightarrow>
     length (restM c (mainpc s')) + sum_list (map (nQ (mapLower c) (skipSystemDirs c)) (dirQueue s'))
       = length (restM c m) + sum_list (map (nQ (mapLower c) (skipSystemDirs c)) (dirQueue s))"
  by (cases "(c, s, m)" rule: main_step.cases)
     (auto simp: seeds_simps allInspected_def nQ_def split: if_splits option.splits)

lemma scan_step:
  assumes st: "step c t s = Some s'"
  shows "scanned s' + scanTodo c s' \<le> scanned s + scanTodo c s
         \<and> (found s < maxResults \<longrightarrow> scanned s' + scanTodo c s' = scanned s + scanTodo c s)
         \<and> (fd_inv s \<longrightarrow> fd_inv s')"
proof (cases t)
  case Main
  with st have ms: "main_step c s (mainpc s) = Some s'"
    by (simp add: step_def split: if_splits)
  from main_step_frame[OF ms refl] main_step_scan[OF ms refl] show ?thesis
    by (simp add: scanTodo_def fd_inv_def)
next
  case Closer
  with st have "closer_step s (closer s) = Some s'"
    by (simp add: step_def split: if_splits)
  from closer_step_frame[OF this] show ?thesis
    by (simp add: scanTodo_def fd_inv_def)
next
  case (Worker w)
  let ?sk = "skipSystemDirs c"
  let ?lw = "mapLower c"
  from Worker st have w: "w < length (workers s)"
    by (simp add: step_def split: if_splits)
  obtain p stk where wk: "workers s ! w = (p, stk)" by (cases "workers s ! w")
  from sum_list_split[OF w, of "nW ?lw ?sk"] wk obtain R where
    old: "sum_list (map (nW ?lw ?sk) (workers s)) = R + nW ?lw ?sk (p, stk)" and
    new: "\<And>y. sum_list (map (nW ?lw ?sk) ((workers s)[w := y])) = R + nW ?lw ?sk y"
    by auto
  from sum_list_split[OF w, of cW] wk obtain C where
    cold: "sum_list (map cW (workers s)) = C + cW (p, stk)" and
    cnew: "\<And>y. sum_list (map cW ((workers s)[w := y])) = C + cW y"
    by auto
  let ?M = "length (restM c (mainpc s))"
  show ?thesis
  proof (cases stk)
    case Nil
    with st Worker w wk obtain s1 wk' where
      ws: "worker_step c s p = Some (s1, wk')" and s': "s' = s1\<lparr>workers := (workers s)[w := wk']\<rparr>"
      by (auto simp: step_def split: if_splits option.splits)
    note fr = worker_step_frame[OF ws]
    let ?A' = "scanned s1 + sum_list (map (nQ ?lw ?sk) (dirQueue s1)) + nW ?lw ?sk wk'"
    let ?A = "scanned s + sum_list (map (nQ ?lw ?sk) (dirQueue s)) + length (restP ?lw ?sk p)"
    from worker_step_scan[OF ws] have
      sub: "?A' \<le> ?A" and eq: "found s < maxResults \<longrightarrow> ?A' = ?A"
      and cnt: "length (matched s1) + found s + cP p = length (matched s) + found s1 + cW wk'"
      by blast+
    have l: "scanned s' + scanTodo c s' = ?A' + (?M + R)"
      using fr by (simp add: s' scanTodo_def new)
    have r: "scanned s + scanTodo c s = ?A + (?M + R)"
      using Nil by (simp add: scanTodo_def old nW_def)
    have f: "fd_inv s \<longrightarrow> fd_inv s'"
      using cnt Nil by (simp add: fd_inv_def s' cold cnew cW_def)
    from sub eq f show ?thesis
      unfolding l r by simp
  next
    case (Cons f fs)
    obtain s1 fs' where wi: "walkInline_step c s f = (s1, fs')"
      by (cases "walkInline_step c s f")
    with st Worker w wk Cons have s': "s' = s1\<lparr>workers := (workers s)[w := (p, fs' @ fs)]\<rparr>"
      by (auto simp: step_def split: if_splits)
    note fr = walkInline_step_frame[OF wi]
    let ?g = "\<lambda>f. length (restI ?lw ?sk f)"
    let ?A' = "scanned s1 + sum_list (map ?g fs')"
    let ?A = "scanned s + ?g f"
    let ?Q = "sum_list (map (nQ ?lw ?sk) (dirQueue s)) + length (restP ?lw ?sk p) + sum_list (map ?g fs)"
    from walkInline_step_scan[OF wi] have
      sub: "?A' \<le> ?A" and eq: "found s < maxResults \<longrightarrow> ?A' = ?A"
      and cnt: "length (matched s1) + found s + cI f
                  = length (matched s) + found s1 + sum_list (map cI fs')"
      by blast+
    have l: "scanned s' + scanTodo c s' = ?A' + (?M + R + ?Q)"
      using fr by (simp add: s' scanTodo_def new nW_def)
    have r: "scanned s + scanTodo c s = ?A + (?M + R + ?Q)"
      using Cons by (simp add: scanTodo_def old nW_def)
    have f: "fd_inv s \<longrightarrow> fd_inv s'"
      using cnt Cons by (simp add: fd_inv_def s' cold cnew cW_def)
    from sub eq f show ?thesis
      unfolding l r by simp
  qed
qed

lemma found_mono_step: "step c t s = Some s' \<Longrightarrow> found s \<le> found s'"
  using todo_step by blast

lemma sc_inv_step: "sc_inv c s \<Longrightarrow> step c t s = Some s' \<Longrightarrow> sc_inv c s'"
  using scan_step[of c t s s'] found_mono_step[of c t s s'] unfolding sc_inv_def
  by (metis linorder_not_less order_trans)

lemma fd_inv_step: "fd_inv s \<Longrightarrow> step c t s = Some s' \<Longrightarrow> fd_inv s'"
  using scan_step by blast

lemma sc_inv_exec: "sc_inv c s \<Longrightarrow> sc_inv c (exec c sched s)"
  by (induction sched arbitrary: s) (auto split: option.splits intro: sc_inv_step)

lemma fd_inv_exec: "fd_inv s \<Longrightarrow> fd_inv (exec c sched s)"
  by (induction sched arbitrary: s) (auto split: option.splits intro: fd_inv_step)

lemma sc_inv_init: "sc_inv c (init n)"
  using sum_list_replicate_zero[of n, where 'a = nat]
  by (simp add: sc_inv_def init_def scanTodo_def nW_def)

lemma fd_inv_init: "fd_inv (init n)"
  using sum_list_replicate_zero[of n, where 'a = nat]
  by (simp add: fd_inv_def init_def cW_def)

text \<open>The state in which the caller returns.\<close>

lemma final_state:
  assumes inv: "struct_inv s" and ret: "mainpc s = MRet" and n: "workers s \<noteq> []"
  shows "dirQueue s = []" and "list_all (\<lambda>wk. wk = (Exited, [])) (workers s)"
    and "closed s" and "pending s = 0"
proof -
  have acc: "pending s = int (pendingSum s)"
    and ck: "closerOK (closer s) (mainpc s) (closed s) (pending s)"
    and ex: "closed s \<or> list_all (\<lambda>wk. fst wk \<noteq> Exited) (workers s)"
    and r: "mainpc s \<noteq> MRet \<or> list_all (\<lambda>wk. wk = (Exited, [])) (workers s)"
    using inv unfolding struct_inv_def by blast+
  from r ret show all: "list_all (\<lambda>wk. wk = (Exited, [])) (workers s)" by simp
  from n obtain x xs where "workers s = x # xs" by (cases "workers s") auto
  with all ex show cl: "closed s" by auto
  from closerOK_pending[OF ck cl] show p0: "pending s = 0" .
  with acc have "pendingSum s = 0" by simp
  then show "dirQueue s = []" by (simp add: pendingSum_def)
qed

lemma sum_list_all_zero:
  "list_all (\<lambda>x. x = a) xs \<Longrightarrow> f a = (0::'a::comm_monoid_add) \<Longrightarrow> sum_list (map f xs) = 0"
  by (induction xs) simp_all

lemma final_todo:
  assumes inv: "struct_inv s" and ret: "mainpc s = MRet" and n: "workers s \<noteq> []"
  shows "todo c s = {#}" and "scanTodo c s = 0" and "sum_list (map cW (workers s)) = 0"
proof -
  note fs = final_state[OF inv ret n]
  have a: "todoW c (Exited, []) = 0"
    by (simp add: todoW_def todoP_def matchesOf_def)
  have b: "nW (mapLower c) (skipSystemDirs c) (Exited, []) = 0"
    by (simp add: nW_def)
  have d: "cW (Exited, []) = 0"
    by (simp add: cW_def)
  from sum_list_all_zero[of _ _ "todoW c", OF fs(2) a] fs(1) ret show "todo c s = {#}"
    by (simp add: todo_def matchesOf_def)
  from sum_list_all_zero[of _ _ "nW (mapLower c) (skipSystemDirs c)", OF fs(2) b] fs(1) ret show "scanTodo c s = 0"
    by (simp add: scanTodo_def)
  from sum_list_all_zero[of _ _ cW, OF fs(2) d] show "sum_list (map cW (workers s)) = 0" .
qed

lemma step_workers_length: "step c t s = Some s' \<Longrightarrow> length (workers s') = length (workers s)"
  by (cases t)
     (auto simp: step_def split: if_splits option.splits prod.splits list.splits
        dest: main_step_frame closer_step_frame worker_step_frame walkInline_step_frame)

lemma exec_workers_length: "length (workers (exec c sched s)) = length (workers s)"
  by (induction sched arbitrary: s) (auto split: option.splits dest: step_workers_length)

lemma walk_final:
  assumes r: "walk n sched c = Some (ms, sc, e)" and n: "0 < n"
  shows "mset ms \<subseteq># expected c"
    and "sc \<le> length (allInspected c)"
    and "length ms < maxResults \<Longrightarrow> mset ms = expected c \<and> sc = length (allInspected c)"
    and "sorted ms"
    and "e = (case rootDir c of None \<Rightarrow> Some ReadDirError | Some es \<Rightarrow> None)"
proof -
  let ?s = "exec c sched (init n)"
  from r have ret: "mainpc ?s = MRet" and ms: "ms = sort (matched ?s)" and sc: "sc = scanned ?s"
    and e: "e = (case rootDir c of None \<Rightarrow> Some ReadDirError | Some es \<Rightarrow> None)"
    by (auto simp: walk_def result_def split: if_splits)
  have inv: "struct_inv ?s" by (rule struct_inv_exec[OF struct_inv_init])
  have "length (workers ?s) = n" by (simp add: exec_workers_length init_def)
  with n have ne: "workers ?s \<noteq> []" by auto
  note ft = final_todo(1)[OF inv ret ne, of c] final_todo(2)[OF inv ret ne, of c]
    final_todo(3)[OF inv ret ne]
  have ev: "ev_inv c ?s" by (rule ev_inv_exec[OF ev_inv_init])
  have scv: "sc_inv c ?s" by (rule sc_inv_exec[OF sc_inv_init])
  have fd: "fd_inv ?s" by (rule fd_inv_exec[OF fd_inv_init])
  from fd ft have len: "length ms = found ?s" by (simp add: fd_inv_def ms)
  from ev ft show "mset ms \<subseteq># expected c" by (simp add: ev_inv_def ms)
  from scv ft show "sc \<le> length (allInspected c)" by (simp add: sc_inv_def sc)
  show "sorted ms" by (simp add: ms)
  show "e = (case rootDir c of None \<Rightarrow> Some ReadDirError | Some es \<Rightarrow> None)" by (rule e)
  show "mset ms = expected c \<and> sc = length (allInspected c)" if "length ms < maxResults"
    using that ev scv ft len by (simp add: ev_inv_def sc_inv_def ms sc)
qed

lemma walk_final_small:
  assumes r: "walk n sched c = Some (ms, sc, e)" and n: "0 < n"
    and small: "size (expected c) < maxResults"
  shows "mset ms = expected c" and "sc = length (allInspected c)"
proof -
  from walk_final(1)[OF r n] have "size (mset ms) \<le> size (expected c)"
    by (rule size_mset_mono)
  with small have "length ms < maxResults" by simp
  from walk_final(3)[OF r n this] show "mset ms = expected c" and "sc = length (allInspected c)"
    by simp_all
qed

subsection \<open>Running a schedule on a concrete tree\<close>

lemma exec_append: "exec c (xs @ ys) s = exec c ys (exec c xs s)"
  by (induction xs arbitrary: s) (auto split: option.splits)

lemma exec_exit_aux:
  assumes "closed s" "dirQueue s = []" "\<not> panicked s"
    and "workers s = replicate k (Exited, []) @ replicate m (Recv, [])"
  shows "exec c (map Worker [k..<k + m]) s = s\<lparr>workers := replicate (k + m) (Exited, [])\<rparr>"
  using assms
proof (induction m arbitrary: k s)
  case 0
  then show ?case by simp
next
  case (Suc m)
  let ?s' = "s\<lparr>workers := replicate (Suc k) (Exited, []) @ replicate m (Recv, [])\<rparr>"
  have nth: "workers s ! k = (Recv, [])" and len: "k < length (workers s)"
    using Suc.prems(4) by (simp_all add: nth_append)
  have upd: "(workers s)[k := (Exited, [])] = replicate (Suc k) (Exited, []) @ replicate m (Recv, [])"
    using Suc.prems(4) by (simp add: list_update_append replicate_append_same)
  have st: "step c (Worker k) s = Some ?s'"
    using Suc.prems(1,2,3) nth len upd by (simp add: step_def)
  have "exec c (map Worker [Suc k..<Suc k + m]) ?s' = ?s'\<lparr>workers := replicate (Suc k + m) (Exited, [])\<rparr>"
    by (rule Suc.IH) (use Suc.prems in simp_all)
  moreover have "[k..<k + Suc m] = k # [Suc k..<Suc k + m]"
    by (simp add: upt_rec)
  ultimately show ?case using st by simp
qed

lemma exec_exit_all:
  assumes "closed s" "dirQueue s = []" "\<not> panicked s" "workers s = replicate n (Recv, [])"
  shows "exec c (map Worker [0..<n]) s = s\<lparr>workers := replicate n (Exited, [])\<rparr>"
  using exec_exit_aux[of s 0 n c] assms by simp

text \<open>
  The end of every schedule used below: the workers leave the closed, empty queue one
  after the other, and the caller returns.
\<close>

lemma exec_finish:
  assumes "closed s" "dirQueue s = []" "\<not> panicked s" "workers s = replicate n (Recv, [])"
    and "mainpc s = MWait"
  shows "exec c (finish n) s = s\<lparr>workers := replicate n (Exited, []), mainpc := MRet\<rparr>"
  using assms
  by (simp add: finish_def exec_append exec_exit_all step_def list_all_iff)

lemma replicate16: "replicate 16 x = x # replicate 15 x"
  by (simp add: numeral_eq_Suc)

lemmas run_simps = init_def step_def pendingDone_def maxResults_def queueCap_def numWorkers_def
  replicate16

lemmas cls_defs = pruned_def isMatch_def skipName_def skipDirs_def Join_def Clean_def ToLower_def
  isASCII_def toLowerChar_def childItem_def

lemma result_final:
  "result c (s\<lparr>workers := ws, mainpc := MRet\<rparr>) =
     (if panicked s then None
      else Some (sort (matched s), scanned s,
                 case rootDir c of None \<Rightarrow> Some ReadDirError | Some es \<Rightarrow> None))"
  by (simp add: result_def)

subsection \<open>The scenario of the specification\<close>

text \<open>
  Every string of the scenarios below is ASCII, so the library's lower-casing of the other
  strings plays no part in them: the runs are the same for every \<open>lw\<close>, and the closed
  statements take the identity for it.
\<close>

lemmas str2_defs = pRoot_def pABC_def pAbc_def pRep_def qAbc_def
lemmas node2_defs = eReport_def eGit_def eABC_def eAbc_def eNM_def

lemma facts2:
  "pruned lw True eGit" "pruned lw True eNM" "\<not> pruned lw True eABC" "\<not> pruned lw True eAbc"
  "\<not> pruned lw True eReport"
  "IsDir eGit" "IsDir eNM" "IsDir eABC" "IsDir eAbc" "\<not> IsDir eReport"
  "childItem pRoot eABC = (pABC, Some [])" "childItem pRoot eAbc = (pAbc, Some [eReport])"
  "childItem pAbc eReport = (pRep, None)"
  "isMatch lw qAbc ModeBoth pRoot eABC" "isMatch lw qAbc ModeBoth pRoot eAbc"
  "isMatch lw qAbc ModeBoth pAbc eReport"
  "Join pRoot (entryName eABC) = pABC" "Join pRoot (entryName eAbc) = pAbc"
  "Join pAbc (entryName eReport) = pRep"
  by (simp_all add: str2_defs node2_defs cls_defs)

lemma run2_state:
  "exec (cfg2 lw) sched2 (init numWorkers) =
     \<lparr>dirQueue = [], closed = True, pending = 0, scanned = 6, found = 4,
      matched = [pABC, pAbc, pRep, pRep],
      workers = replicate numWorkers (Recv, []), mainpc = MWait, closer = CDone,
      panicked = False\<rparr>"
  by (simp add: cfg2_def sched2_def w8_def run_simps facts2)

lemma run2:
  "parallelWalk lw (sched2 @ finish numWorkers) ''root'' (Some tree2) ''abc'' ModeBoth True =
     Some ([''root/ABC123'', ''root/abc'', ''root/abc/report.txt'', ''root/abc/report.txt''],
           6, None)"
proof -
  have c: "\<lparr>root = ''root'', rootDir = Some tree2, query = ''abc'', mode = ModeBoth,
            skipSystemDirs = True, mapLower = lw\<rparr> = cfg2 lw"
    by (simp add: cfg2_def tree2_def str2_defs node2_defs)
  have srt: "sort [pABC, pAbc, pRep, pRep] =
          [''root/ABC123'', ''root/abc'', ''root/abc/report.txt'', ''root/abc/report.txt'']"
    by (simp add: str2_defs)
  have "result (cfg2 lw) (exec (cfg2 lw) (finish numWorkers) (exec (cfg2 lw) sched2 (init numWorkers))) =
          Some (sort [pABC, pAbc, pRep, pRep], 6, None)"
    unfolding run2_state by (simp add: exec_finish result_def cfg2_def del: sort_key_simps)
  then show ?thesis
    unfolding parallelWalk_def walk_def c exec_append srt .
qed

lemma cfg2_eq:
  "\<lparr>root = ''root'', rootDir = Some tree2, query = ''abc'', mode = ModeBoth,
     skipSystemDirs = True, mapLower = lw\<rparr> = cfg2 lw"
  by (simp add: cfg2_def tree2_def str2_defs node2_defs)

lemma itemEntries_simps:
  "itemEntries lw sk (d, None) = []"
  "itemEntries lw sk (d, Some es) = inspected lw sk d es"
  by (simp_all add: itemEntries_def)

lemma expected2: "expected (cfg2 lw) = {#pABC, pAbc, pRep, pRep#}"
  by (simp add: expected_def allInspected_def seeds_simps itemEntries_simps inspected_Cons
      matchesOf_def hit_def pathOf_def cfg2_def facts2)

lemma set_neqI: "x \<in> A \<Longrightarrow> x \<notin> B \<Longrightarrow> A \<noteq> B"
  by blast

lemma numWorkers_pos: "0 < numWorkers"
  by (simp add: numWorkers_def)

text \<open>
  C2, as amended. In the scenario of the specification (\<open>root/abc/report.txt\<close>,
  \<open>root/.git/config\<close>, \<open>root/node_modules/pkg/index.js\<close>, \<open>root/ABC123/\<close>, query
  \<open>abc\<close>, mode Both, system directories skipped) every run of \<open>parallelWalk\<close> that
  returns, under every schedule, returns a sorted list whose set of paths is
  \<open>root/ABC123\<close>, \<open>root/abc\<close> and \<open>root/abc/report.txt\<close>: the full path of
  \<open>report.txt\<close> contains the query.
\<close>

theorem C2_scenario:
  assumes "parallelWalk lw sched ''root'' (Some tree2) ''abc'' ModeBoth True = Some (ms, n, e)"
  shows "set ms = {''root/ABC123'', ''root/abc'', ''root/abc/report.txt''} \<and> sorted ms"
proof -
  from assms have w: "walk numWorkers sched (cfg2 lw) = Some (ms, n, e)"
    by (simp add: parallelWalk_def cfg2_eq)
  have "size (expected (cfg2 lw)) < maxResults"
    by (simp add: expected2 maxResults_def)
  from walk_final_small(1)[OF w numWorkers_pos this] have "mset ms = {#pABC, pAbc, pRep, pRep#}"
    by (simp add: expected2)
  then have "set_mset (mset ms) = {pABC, pAbc, pRep}"
    by simp
  then have "set ms = {''root/ABC123'', ''root/abc'', ''root/abc/report.txt''}"
    by (simp add: str2_defs)
  with walk_final(4)[OF w numWorkers_pos] show ?thesis by simp
qed

theorem C2_scenario_witness:
  "parallelWalk id (sched2 @ finish numWorkers) ''root'' (Some tree2) ''abc'' ModeBoth True
     = Some ([''root/ABC123'', ''root/abc'', ''root/abc/report.txt'', ''root/abc/report.txt''],
             6, None)
   \<and> set [''root/ABC123'', ''root/abc'', ''root/abc/report.txt'', ''root/abc/report.txt'']
       = {''root/ABC123'', ''root/abc'', ''root/abc/report.txt''}
   \<and> sorted [''root/ABC123'', ''root/abc'', ''root/abc/report.txt'', ''root/abc/report.txt'']"
  by (rule conjI[OF run2 C2_scenario[OF run2]])

text \<open>
  C2 as stated fails: the run below returns \<open>root/abc/report.txt\<close> (twice) besides
  \<open>root/abc\<close> and \<open>root/ABC123\<close>.
\<close>

theorem C2_counterexample:
  "parallelWalk id (sched2 @ finish numWorkers) ''root'' (Some tree2) ''abc'' ModeBoth True
     = Some ([''root/ABC123'', ''root/abc'', ''root/abc/report.txt'', ''root/abc/report.txt''],
             6, None)
   \<and> set [''root/ABC123'', ''root/abc'', ''root/abc/report.txt'', ''root/abc/report.txt'']
       \<noteq> {''root/abc'', ''root/ABC123''}"
proof (rule conjI[OF run2])
  have a: "''root/abc/report.txt''
             \<in> set [''root/ABC123'', ''root/abc'', ''root/abc/report.txt'', ''root/abc/report.txt'']"
    by simp
  have b: "''root/abc/report.txt'' \<notin> {''root/abc'', ''root/ABC123''}"
    by simp
  show "set [''root/ABC123'', ''root/abc'', ''root/abc/report.txt'', ''root/abc/report.txt'']
          \<noteq> {''root/abc'', ''root/ABC123''}"
    by (rule set_neqI[OF a b])
qed

text \<open>
  C7. A run of \<open>parallelWalk\<close> that returns, under every schedule, returns an error
  exactly when \<open>os.ReadDir(root)\<close> fails, whatever the directories below the root
  return; in that case it returns no match and a scanned count of zero.
\<close>

theorem C7_error_iff_root_unreadable:
  assumes "parallelWalk lw sched r rd q m sk = Some (ms, n, e)"
  shows "(e \<noteq> None) = (rd = None) \<and> (rd = None \<longrightarrow> ms = [] \<and> n = 0)"
proof -
  let ?c = "\<lparr>root = r, rootDir = rd, query = q, mode = m, skipSystemDirs = sk, mapLower = lw\<rparr>"
  from assms have w: "walk numWorkers sched ?c = Some (ms, n, e)"
    by (simp add: parallelWalk_def)
  from walk_final(5)[OF w numWorkers_pos] have e: "(e \<noteq> None) = (rd = None)"
    by (cases rd) simp_all
  have "ms = [] \<and> n = 0" if "rd = None"
  proof -
    from that have ai: "allInspected ?c = []"
      by (simp add: allInspected_def itemEntries_simps)
    then have "size (expected ?c) < maxResults"
      by (simp add: expected_def matchesOf_def maxResults_def)
    from walk_final_small[OF w numWorkers_pos this] ai show ?thesis
      by (simp add: expected_def matchesOf_def)
  qed
  with e show ?thesis by blast
qed

text \<open>
  C9. In every state of every execution: when the closing goroutine stands before
  \<open>close(dirQueue)\<close> the pending counter is zero; once the queue is closed the counter is
  zero, the queue is empty and every worker is waiting for the queue or has exited, so no
  directory is queued or in flight; a worker has exited only if the queue is closed; the
  counter is never negative and no goroutine has panicked.
\<close>

theorem C9_close_only_when_drained:
  assumes "s = exec c sched (init n)"
  shows "(closer s = CClose \<longrightarrow> pending s = 0)
       \<and> (closed s \<longrightarrow> pending s = 0 \<and> dirQueue s = []
             \<and> list_all (\<lambda>wk. wk = (Recv, []) \<or> wk = (Exited, [])) (workers s))
       \<and> (list_all (\<lambda>wk. fst wk \<noteq> Exited) (workers s) \<or> closed s)
       \<and> 0 \<le> pending s \<and> \<not> panicked s"
proof -
  have inv: "struct_inv s" unfolding assms by (rule struct_inv_exec[OF struct_inv_init])
  have np: "\<not> panicked s" and acc: "pending s = int (pendingSum s)"
    and wf: "list_all wf_worker (workers s)"
    and ck: "closerOK (closer s) (mainpc s) (closed s) (pending s)"
    and ex: "closed s \<or> list_all (\<lambda>wk. fst wk \<noteq> Exited) (workers s)"
    using inv unfolding struct_inv_def by blast+
  have a: "pending s = 0" if "closer s = CClose"
    using ck that by simp
  have b: "pending s = 0" if "closed s"
    using closerOK_pending[OF ck that] .
  have q: "dirQueue s = []" and idle: "list_all (\<lambda>wk. wk = (Recv, []) \<or> wk = (Exited, [])) (workers s)"
    if "closed s"
  proof -
    from b[OF that] acc have z: "pendingSum s = 0" by simp
    then show "dirQueue s = []" by (simp add: pendingSum_def)
    from z have "\<forall>wk \<in> set (workers s). pendW wk = 0" by (simp add: pendingSum_def)
    moreover from wf have "\<forall>wk \<in> set (workers s). wf_worker wk" by (simp add: list_all_iff)
    ultimately have "\<forall>wk \<in> set (workers s). wk = (Recv, []) \<or> wk = (Exited, [])"
    proof (intro ballI)
      fix wk assume "\<forall>wk \<in> set (workers s). pendW wk = 0" "\<forall>wk \<in> set (workers s). wf_worker wk"
        "wk \<in> set (workers s)"
      then have "pendP (fst wk) = 0" "snd wk = [] \<or> isAfterInline (fst wk)"
        by (auto simp: pendW_def wf_worker_def)
      then show "wk = (Recv, []) \<or> wk = (Exited, [])"
        by (cases wk; cases "fst wk") auto
    qed
    then show "list_all (\<lambda>wk. wk = (Recv, []) \<or> wk = (Exited, [])) (workers s)"
      by (simp add: list_all_iff)
  qed
  from a b q idle ex np acc show ?thesis by auto
qed

theorem C9_close_only_when_drained_witness:
  "closed (exec (cfg2 id) sched2 (init numWorkers))
   \<and> pending (exec (cfg2 id) sched2 (init numWorkers)) = 0
   \<and> dirQueue (exec (cfg2 id) sched2 (init numWorkers)) = []
   \<and> list_all (\<lambda>wk. wk = (Recv, []) \<or> wk = (Exited, []))
        (workers (exec (cfg2 id) sched2 (init numWorkers)))"
proof -
  have "closed (exec (cfg2 id) sched2 (init numWorkers))"
    by (simp add: run2_state)
  with C9_close_only_when_drained[OF refl, of "cfg2 id" sched2 numWorkers] show ?thesis by blast
qed

lemma treeEntries_last: "(ns, x) \<in> set (treeEntries es) \<Longrightarrow> ns \<noteq> [] \<and> last ns = entryName x"
  by (induction es arbitrary: ns x rule: treeEntries.induct) auto

lemma visible_simps:
  "visible lw sk [n]"
  "ns \<noteq> [] \<Longrightarrow> visible lw sk (n # ns) = (\<not> (sk \<and> skipName (ToLower lw n)) \<and> visible lw sk ns)"
  by (simp_all add: visible_def)

lemma kids_chain:
  assumes "\<forall>(ns, x) \<in> set K. ns \<noteq> []"
  shows "map (\<lambda>(ns, x). (chainPath d (butlast ns), x))
           (filter (\<lambda>(ns, x). visible lw sk ns) (map (\<lambda>(ns, x). (n # ns, x)) K))
         = (if sk \<and> skipName (ToLower lw n) then []
            else map (\<lambda>(ns, x). (chainPath (Join d n) (butlast ns), x))
                   (filter (\<lambda>(ns, x). visible lw sk ns) K))"
  using assms
  by (induction K) (auto simp: visible_simps chainPath_def)

lemma inspected_tree: "inspected lw sk d es = visibleEntries lw sk d es"
proof (induction lw sk d es rule: inspected.induct)
  case (1 lw sk dir)
  then show ?case by (simp add: visibleEntries_def)
next
  case (2 lw sk dir n es)
  then show ?case by (simp add: visibleEntries_def visible_simps chainPath_def)
next
  case (3 lw sk dir n es)
  then show ?case by (simp add: visibleEntries_def visible_simps chainPath_def)
next
  case (4 lw sk dir n kids es)
  have ne: "\<forall>(ns, x) \<in> set (treeEntries kids). ns \<noteq> []"
    using treeEntries_last by blast
  show ?case
    using 4 kids_chain[OF ne, of dir lw sk n]
    by (simp add: visibleEntries_def visible_simps chainPath_def pruned_def)
qed

lemma seeds_subset: "set (seeds c es) \<subseteq> set (inspected (mapLower c) (skipSystemDirs c) (root c) es)"
  by (induction es) (auto simp: seeds_simps inspected_Cons)

lemma set_allInspected:
  "set (allInspected c) = set (itemEntries (mapLower c) (skipSystemDirs c) (root c, rootDir c))"
  using seeds_subset[of c]
  by (cases "rootDir c") (auto simp: allInspected_def itemEntries_simps)

lemma chainPath_snoc: "ns \<noteq> [] \<Longrightarrow> Join (chainPath d (butlast ns)) (last ns) = chainPath d ns"
proof -
  assume "ns \<noteq> []"
  then have "ns = butlast ns @ [last ns]" by simp
  then have "chainPath d ns = foldl Join d (butlast ns @ [last ns])"
    by (simp add: chainPath_def)
  then show ?thesis by (simp add: chainPath_def)
qed

lemma visibleEntries_iff:
  "(d, x) \<in> set (visibleEntries lw sk r es) \<longleftrightarrow>
     (\<exists>ns. (ns, x) \<in> set (treeEntries es) \<and> visible lw sk ns \<and> d = chainPath r (butlast ns))"
  unfolding visibleEntries_def by force

lemma expected_iff_hit:
  "p \<in># expected c \<longleftrightarrow> (\<exists>d x. (d, x) \<in> set (allInspected c) \<and> hit c (d, x) \<and> p = pathOf (d, x))"
  unfolding expected_def matchesOf_def by force

text \<open>What a path of the expected matches is: the path of a visible, matching entry.\<close>

lemma in_expected_iff:
  "p \<in># expected c \<longleftrightarrow>
     (\<exists>es ns x. rootDir c = Some es \<and> (ns, x) \<in> set (treeEntries es)
        \<and> visible (mapLower c) (skipSystemDirs c) ns \<and> \<not> pruned (mapLower c) (skipSystemDirs c) x
        \<and> isMatch (mapLower c) (query c) (mode c) (chainPath (root c) (butlast ns)) x
        \<and> p = chainPath (root c) ns)"
  (is "?L \<longleftrightarrow> ?R")
proof
  assume ?L
  then obtain d x where dx: "(d, x) \<in> set (allInspected c)" and h: "hit c (d, x)"
    and p: "p = pathOf (d, x)"
    unfolding expected_iff_hit by blast
  from dx obtain es where es: "rootDir c = Some es"
    and v: "(d, x) \<in> set (visibleEntries (mapLower c) (skipSystemDirs c) (root c) es)"
    by (cases "rootDir c") (auto simp: set_allInspected itemEntries_simps inspected_tree)
  from v obtain ns where ns: "(ns, x) \<in> set (treeEntries es)" "visible (mapLower c) (skipSystemDirs c) ns"
    and d: "d = chainPath (root c) (butlast ns)"
    unfolding visibleEntries_iff by blast
  from treeEntries_last[OF ns(1)] have "ns \<noteq> []" "last ns = entryName x" by simp_all
  with chainPath_snoc[of ns "root c"] p d have "p = chainPath (root c) ns"
    by (simp add: pathOf_def)
  with es ns h d show ?R
    unfolding hit_def by auto
next
  assume ?R
  then obtain es ns x where es: "rootDir c = Some es" and ns: "(ns, x) \<in> set (treeEntries es)"
    and v: "visible (mapLower c) (skipSystemDirs c) ns" and np: "\<not> pruned (mapLower c) (skipSystemDirs c) x"
    and m: "isMatch (mapLower c) (query c) (mode c) (chainPath (root c) (butlast ns)) x"
    and p: "p = chainPath (root c) ns"
    by blast
  let ?d = "chainPath (root c) (butlast ns)"
  from ns v have "(?d, x) \<in> set (visibleEntries (mapLower c) (skipSystemDirs c) (root c) es)"
    unfolding visibleEntries_iff by blast
  then have a: "(?d, x) \<in> set (allInspected c)"
    by (simp add: set_allInspected itemEntries_simps inspected_tree es)
  from np m have b: "hit c (?d, x)" by (simp add: hit_def)
  from treeEntries_last[OF ns] have "ns \<noteq> []" "last ns = entryName x" by simp_all
  with chainPath_snoc[of ns "root c"] p have c: "p = pathOf (?d, x)"
    by (simp add: pathOf_def)
  from a b c show ?L
    unfolding expected_iff_hit by blast
qed

lemma walk_sound:
  assumes "walk n sched c = Some (ms, sc, e)" "0 < n" "p \<in> set ms"
  shows "p \<in># expected c"
  using walk_final(1)[OF assms(1,2)] assms(3) by (meson in_multiset_in_set mset_subset_eqD)


lemma parallelWalk_walk:
  "parallelWalk lw sched r rd q m sk = walk numWorkers sched (cfg lw r rd q m sk)"
  by (simp add: parallelWalk_def cfg_def)

lemma cfg_simps:
  "root (cfg lw r rd q m sk) = r" "rootDir (cfg lw r rd q m sk) = rd" "query (cfg lw r rd q m sk) = q"
  "mode (cfg lw r rd q m sk) = m" "skipSystemDirs (cfg lw r rd q m sk) = sk"
  "mapLower (cfg lw r rd q m sk) = lw"
  by (simp_all add: cfg_def)

text \<open>Every returned path is the path of a visible entry that passes the match check.\<close>

lemma returned_entry:
  assumes r: "parallelWalk lw sched r rd q m sk = Some (ms, n, e)" and p: "p \<in> set ms"
  shows "\<exists>es ns x. rd = Some es \<and> (ns, x) \<in> set (treeEntries es) \<and> visible lw sk ns
           \<and> \<not> pruned lw sk x \<and> isMatch lw q m (chainPath r (butlast ns)) x \<and> p = chainPath r ns"
proof -
  from r have w: "walk numWorkers sched (cfg lw r rd q m sk) = Some (ms, n, e)"
    by (simp add: parallelWalk_walk)
  from walk_sound[OF w numWorkers_pos p] show ?thesis
    unfolding in_expected_iff cfg_simps .
qed


text \<open>
  C3, as amended. With \<open>skipSystemDirs\<close> set, every returned path is the root joined
  with the names \<open>ns\<close> of a chain of entries of the tree, in which no directory below the
  root has a skipped name (a name that, lower-cased, is in the skip set or begins with a
  dot): none of the names before the last one, which are directories, and not the last one
  when the entry is a directory. The segments of the root itself and the name of a file
  are not tested.
\<close>

theorem C3_no_skipped_directory:
  assumes "parallelWalk lw sched r rd q m True = Some (ms, n, e)" and "p \<in> set ms"
  shows "\<exists>es ns x. rd = Some es \<and> (ns, x) \<in> set (treeEntries es) \<and> p = chainPath r ns
           \<and> list_all (\<lambda>n. \<not> skipName (ToLower lw n)) (butlast ns)
           \<and> (\<not> IsDir x \<or> \<not> skipName (ToLower lw (last ns)))"
proof -
  from returned_entry[OF assms] obtain es ns x where
    a: "rd = Some es" "(ns, x) \<in> set (treeEntries es)" "visible lw True ns" "\<not> pruned lw True x"
      "p = chainPath r ns"
    by blast
  from treeEntries_last[OF a(2)] a(4) have "\<not> IsDir x \<or> \<not> skipName (ToLower lw (last ns))"
    by (simp add: pruned_def)
  moreover from a(3) have "list_all (\<lambda>n. \<not> skipName (ToLower lw n)) (butlast ns)"
    by (simp add: visible_def)
  ultimately show ?thesis using a by blast
qed

lemma ToLower_ascii: "isASCII s \<Longrightarrow> ToLower lw s = map toLowerChar s"
  by (simp add: ToLower_def)

lemma ToLower_other: "\<not> isASCII s \<Longrightarrow> ToLower lw s = lw s"
  by (simp add: ToLower_def)

text \<open>
  For an ASCII name and a query without capital letters (the caller lower-cases the query,
  line 330), a name that contains the query as it is written passes the test on the
  lower-cased name.
\<close>

lemma Contains_map: "Contains s sub \<Longrightarrow> Contains (map f s) (map f sub)"
  by (induction s) (auto simp: map_mono_prefix dest: map_mono_prefix[where f = f])

lemma Contains_ToLower:
  assumes "isASCII n" "map toLowerChar q = q" "Contains n q"
  shows "Contains (ToLower lw n) q"
  using Contains_map[OF assms(3), of toLowerChar] assms(1,2) by (simp add: ToLower_ascii)



lemma walk_from_state:
  assumes "exec c sched (init n) = s" "closed s" "dirQueue s = []" "\<not> panicked s"
    "workers s = replicate n (Recv, [])" "mainpc s = MWait"
  shows "walk n (sched @ finish n) c =
           Some (sort (matched s), scanned s,
                 case rootDir c of None \<Rightarrow> Some ReadDirError | Some es \<Rightarrow> None)"
  unfolding walk_def exec_append assms(1)
  using assms(2-) by (simp add: exec_finish result_def del: sort_key_simps)

subsection \<open>A hidden file\<close>

lemma facts3:
  "\<not> pruned lw True eEnv" "\<not> IsDir eEnv"
  "isMatch lw [] ModeBoth pR eEnv" "isMatch lw [] ModeFiles pR eEnv" "\<not> isMatch lw [] ModeFolders pR eEnv"
  "Join pR (entryName eEnv) = pEnv" "childItem pR eEnv = (pEnv, None)"
  by (simp_all add: eEnv_def pR_def pEnv_def cls_defs)

lemma run3_state:
  "m = ModeBoth \<or> m = ModeFiles \<Longrightarrow>
   exec (cfg3 lw m) sched3 (init numWorkers) =
     \<lparr>dirQueue = [], closed = True, pending = 0, scanned = 1, found = 1, matched = [pEnv],
      workers = replicate numWorkers (Recv, []), mainpc = MWait, closer = CDone,
      panicked = False\<rparr>"
  by (auto simp: cfg3_def sched3_def w8_def run_simps facts3)

lemma cfg3_eq:
  "\<lparr>root = ''r'', rootDir = Some [File ''.env''], query = [], mode = m,
     skipSystemDirs = True, mapLower = lw\<rparr> = cfg3 lw m"
  by (simp add: cfg3_def eEnv_def pR_def)

lemma run3:
  assumes "m = ModeBoth \<or> m = ModeFiles"
  shows "parallelWalk lw (sched3 @ finish numWorkers) ''r'' (Some [File ''.env'']) [] m True =
           Some ([''r/.env''], 1, None)"
  unfolding parallelWalk_def cfg3_eq
  by (subst walk_from_state[OF run3_state[OF assms]]) (simp_all add: cfg3_def pEnv_def)

subsection \<open>An unreadable root\<close>

lemma run7_state:
  "exec \<lparr>root = r, rootDir = None, query = q, mode = m, skipSystemDirs = sk, mapLower = lw\<rparr> sched7
       (init numWorkers) =
     \<lparr>dirQueue = [], closed = True, pending = 0, scanned = 0, found = 0, matched = [],
      workers = replicate numWorkers (Recv, []), mainpc = MWait, closer = CDone,
      panicked = False\<rparr>"
  by (simp add: sched7_def run_simps)

lemma run7:
  "parallelWalk lw (sched7 @ finish numWorkers) r None q m sk = Some ([], 0, Some ReadDirError)"
  unfolding parallelWalk_def
  by (subst walk_from_state[OF run7_state]) simp_all

subsection \<open>The scenario with one worker\<close>

lemma run8_state:
  "exec (cfg2 lw) sched2 (init (Suc 0)) =
     \<lparr>dirQueue = [], closed = True, pending = 0, scanned = 6, found = 4,
      matched = [pABC, pAbc, pRep, pRep],
      workers = replicate (Suc 0) (Recv, []), mainpc = MWait, closer = CDone,
      panicked = False\<rparr>"
  by (simp add: cfg2_def sched2_def w8_def init_def step_def pendingDone_def maxResults_def
      queueCap_def facts2)

lemma run8:
  "walk (Suc 0) (sched2 @ finish (Suc 0)) (cfg2 lw) =
     Some ([''root/ABC123'', ''root/abc'', ''root/abc/report.txt'', ''root/abc/report.txt''],
           6, None)"
proof -
  have srt: "sort [pABC, pAbc, pRep, pRep] =
          [''root/ABC123'', ''root/abc'', ''root/abc/report.txt'', ''root/abc/report.txt'']"
    by (simp add: str2_defs)
  show ?thesis
    by (subst walk_from_state[OF run8_state]) (simp_all add: cfg2_def srt del: sort_key_simps)
qed

lemma run2_walk:
  "walk numWorkers (sched2 @ finish numWorkers) (cfg2 lw) =
     Some ([''root/ABC123'', ''root/abc'', ''root/abc/report.txt'', ''root/abc/report.txt''],
           6, None)"
  using run2 by (simp add: parallelWalk_def cfg2_eq)

subsection \<open>The scenario in the three modes and with the empty query\<close>

lemma factsS:
  "\<not> isMatch lw qAbc ModeFiles pRoot eABC" "\<not> isMatch lw qAbc ModeFiles pRoot eAbc"
  "isMatch lw qAbc ModeFiles pAbc eReport"
  "isMatch lw qAbc ModeFolders pRoot eABC" "isMatch lw qAbc ModeFolders pRoot eAbc"
  "\<not> isMatch lw qAbc ModeFolders pAbc eReport"
  "isMatch lw [] ModeBoth pRoot eABC" "isMatch lw [] ModeBoth pRoot eAbc"
  "isMatch lw [] ModeBoth pAbc eReport"
  by (simp_all add: str2_defs node2_defs cls_defs)

lemma runS_files_state:
  "exec (cfgS lw qAbc ModeFiles) sched2 (init numWorkers) =
     \<lparr>dirQueue = [], closed = True, pending = 0, scanned = 6, found = 2,
      matched = [pRep, pRep],
      workers = replicate numWorkers (Recv, []), mainpc = MWait, closer = CDone,
      panicked = False\<rparr>"
  by (simp add: cfgS_def sched2_def w8_def run_simps facts2 factsS)

lemma runS_folders_state:
  "exec (cfgS lw qAbc ModeFolders) sched2 (init numWorkers) =
     \<lparr>dirQueue = [], closed = True, pending = 0, scanned = 6, found = 2,
      matched = [pABC, pAbc],
      workers = replicate numWorkers (Recv, []), mainpc = MWait, closer = CDone,
      panicked = False\<rparr>"
  by (simp add: cfgS_def sched2_def w8_def run_simps facts2 factsS)


lemma cfgS_eq:
  "\<lparr>root = ''root'', rootDir = Some tree2, query = ''abc'', mode = m,
     skipSystemDirs = True, mapLower = lw\<rparr> = cfgS lw qAbc m"
  "\<lparr>root = ''root'', rootDir = Some tree2, query = [], mode = m,
     skipSystemDirs = True, mapLower = lw\<rparr> = cfgS lw [] m"
  by (simp_all add: cfgS_def tree2_def str2_defs node2_defs)

lemma runS_files:
  "parallelWalk lw (sched2 @ finish numWorkers) ''root'' (Some tree2) ''abc'' ModeFiles True =
     Some ([''root/abc/report.txt'', ''root/abc/report.txt''], 6, None)"
  unfolding parallelWalk_def cfgS_eq
  by (subst walk_from_state[OF runS_files_state]) (simp_all add: cfgS_def str2_defs)

lemma runS_folders:
  "parallelWalk lw (sched2 @ finish numWorkers) ''root'' (Some tree2) ''abc'' ModeFolders True =
     Some ([''root/ABC123'', ''root/abc''], 6, None)"
  unfolding parallelWalk_def cfgS_eq
  by (subst walk_from_state[OF runS_folders_state]) (simp_all add: cfgS_def str2_defs)


text \<open>
  A name that is not ASCII: when the library lower-cases \<open>nameDI\<close> to \<open>dist\<close>, a
  directory of that name is skipped and nothing below it is visible.
\<close>

lemma dotted_I_skipped:
  assumes "lw nameDI = ''dist''"
  shows "pruned lw True (Dir nameDI kids)" and "\<not> visible lw True [nameDI, n]"
proof -
  have a: "\<not> isASCII nameDI"
    by (simp add: nameDI_def isASCII_def)
  have s: "skipName ''dist''"
    by (simp add: skipName_def skipDirs_def)
  from a s assms show "pruned lw True (Dir nameDI kids)"
    by (simp add: pruned_def ToLower_other)
  from a s assms show "\<not> visible lw True [nameDI, n]"
    by (simp add: visible_def ToLower_other)
qed

lemmas name_defs = visible_def pruned_def skipName_def skipDirs_def ToLower_def isASCII_def
  toLowerChar_def modeOK_def

text \<open>
  C1. The claim fails on the code: \<open>parallelWalk\<close> enqueues the root (line 254) and
  then every directory of the first level (line 264), and the worker that lists the root
  enqueues these directories again (line 220), so each of them is listed twice and every
  match below it is recorded twice; nothing removes duplicates. In the scenario of the
  specification every run that returns, under every schedule, returns a list with a
  repeated path.
\<close>

theorem C1_duplicates:
  assumes "parallelWalk lw sched ''root'' (Some tree2) ''abc'' ModeBoth True = Some (ms, n, e)"
  shows "\<not> distinct ms"
proof
  assume d: "distinct ms"
  from assms have w: "walk numWorkers sched (cfg2 lw) = Some (ms, n, e)"
    by (simp add: parallelWalk_def cfg2_eq)
  have "size (expected (cfg2 lw)) < maxResults"
    by (simp add: expected2 maxResults_def)
  from walk_final_small(1)[OF w numWorkers_pos this] have "mset ms = {#pABC, pAbc, pRep, pRep#}"
    by (simp add: expected2)
  then have "count (mset ms) pRep \<ge> 2" by simp
  moreover from d have "count (mset ms) pRep \<le> 1"
    by (simp add: distinct_count_atmost_1)
  ultimately show False by simp
qed

theorem C1_duplicates_witness:
  "parallelWalk id (sched2 @ finish numWorkers) ''root'' (Some tree2) ''abc'' ModeBoth True
     = Some ([''root/ABC123'', ''root/abc'', ''root/abc/report.txt'', ''root/abc/report.txt''],
             6, None)
   \<and> \<not> distinct [''root/ABC123'', ''root/abc'', ''root/abc/report.txt'', ''root/abc/report.txt'']"
  by (rule conjI[OF run2 C1_duplicates[OF run2]])

theorem C3_no_skipped_directory_witness:
  "parallelWalk id (sched2 @ finish numWorkers) ''root'' (Some tree2) ''abc'' ModeBoth True
     = Some ([''root/ABC123'', ''root/abc'', ''root/abc/report.txt'', ''root/abc/report.txt''],
             6, None)
   \<and> ''root/abc/report.txt''
       \<in> set [''root/ABC123'', ''root/abc'', ''root/abc/report.txt'', ''root/abc/report.txt'']
   \<and> (\<exists>es ns x. Some tree2 = Some es \<and> (ns, x) \<in> set (treeEntries es)
         \<and> ''root/abc/report.txt'' = chainPath ''root'' ns
         \<and> list_all (\<lambda>n. \<not> skipName (ToLower id n)) (butlast ns)
         \<and> (\<not> IsDir x \<or> \<not> skipName (ToLower id (last ns))))
   \<and> ([''abc'', ''report.txt''], File ''report.txt'') \<in> set (treeEntries tree2)
   \<and> chainPath ''root'' [''abc'', ''report.txt''] = ''root/abc/report.txt''
   \<and> ([''.git'', ''config''], File ''config'') \<in> set (treeEntries tree2)
   \<and> skipName (ToLower id ''.git'')
   \<and> chainPath ''root'' [''.git'', ''config'']
       \<notin> set [''root/ABC123'', ''root/abc'', ''root/abc/report.txt'', ''root/abc/report.txt'']"
proof -
  let ?L = "[''root/ABC123'', ''root/abc'', ''root/abc/report.txt'', ''root/abc/report.txt'']"
  have m: "''root/abc/report.txt'' \<in> set ?L" by simp
  note t = C3_no_skipped_directory[OF run2 m]
  have a: "([''abc'', ''report.txt''], File ''report.txt'') \<in> set (treeEntries tree2)"
    by (simp add: tree2_def)
  have b: "chainPath ''root'' [''abc'', ''report.txt''] = ''root/abc/report.txt''"
    by (simp add: chainPath_def Join_def Clean_def)
  have c: "([''.git'', ''config''], File ''config'') \<in> set (treeEntries tree2)"
    by (simp add: tree2_def)
  have d: "skipName (ToLower id ''.git'')"
    by (simp add: name_defs)
  have e: "chainPath ''root'' [''.git'', ''config''] \<notin> set ?L"
    by (simp add: chainPath_def Join_def Clean_def)
  show ?thesis
    by (rule conjI[OF run2 conjI[OF m conjI[OF t conjI[OF a conjI[OF b conjI[OF c conjI[OF d e]]]]]]])
qed

text \<open>
  C3 as stated fails: with \<open>skipSystemDirs\<close> set, the hidden file \<open>.env\<close> of the root
  is returned; the test of lines 208 and 295 applies to directories only.
\<close>

theorem C3_counterexample:
  "parallelWalk id (sched3 @ finish numWorkers) ''r'' (Some [File ''.env'']) [] ModeBoth True
     = Some ([''r/.env''], 1, None)
   \<and> ''.env'' \<in> set (splitSep [] ''r/.env'') \<and> hd ''.env'' = CHR ''.''
   \<and> skipName (ToLower id ''.env'')"
proof -
  have r: "parallelWalk id (sched3 @ finish numWorkers) ''r'' (Some [File ''.env'']) [] ModeBoth True
     = Some ([''r/.env''], 1, None)"
    by (rule run3) simp
  have s: "''.env'' \<in> set (splitSep [] ''r/.env'') \<and> hd ''.env'' = CHR ''.''
             \<and> skipName (ToLower id ''.env'')"
    by (simp add: skipName_def ToLower_def isASCII_def toLowerChar_def)
  show ?thesis by (rule conjI[OF r s])
qed



theorem C7_error_iff_root_unreadable_witness:
  "parallelWalk id (sched7 @ finish numWorkers) ''r'' None ''a'' ModeBoth True
     = Some ([], 0, Some ReadDirError)
   \<and> (Some ReadDirError \<noteq> None) = ((None :: node list option) = None)"
  by (rule conjI[OF run7 conjunct1[OF C7_error_iff_root_unreadable[OF run7]]])

lemma sorted_mset_unique:
  fixes xs ys :: "'a::linorder list"
  assumes "sorted xs" "sorted ys" "mset xs = mset ys"
  shows "xs = ys"
proof -
  from properties_for_sort[OF assms(3) assms(1)] have "sort ys = xs" .
  moreover from sorted_sort_id[OF assms(2)] have "sort ys = ys" .
  ultimately show ?thesis by simp
qed

text \<open>Runs on the same input agree as soon as one of them returns fewer matches than the cap.\<close>

lemma walk_deterministic:
  assumes a: "walk n1 s1 c = Some (ms1, sc1, e1)" and b: "walk n2 s2 c = Some (ms2, sc2, e2)"
    and n: "0 < n1" "0 < n2" and small: "length ms1 < maxResults"
  shows "ms1 = ms2 \<and> sc1 = sc2 \<and> e1 = e2"
proof -
  from walk_final(3)[OF a n(1) small] have 1: "mset ms1 = expected c" "sc1 = length (allInspected c)"
    by simp_all
  from 1(1) small have "size (expected c) < maxResults"
    by (metis size_mset)
  from walk_final_small[OF b n(2) this] have 2: "mset ms2 = expected c" "sc2 = length (allInspected c)"
    by simp_all
  from 1 2 walk_final(4)[OF a n(1)] walk_final(4)[OF b n(2)] have "ms1 = ms2" "sc1 = sc2"
    by (simp_all add: sorted_mset_unique)
  moreover from walk_final(5)[OF a n(1)] walk_final(5)[OF b n(2)] have "e1 = e2" by simp
  ultimately show ?thesis by simp
qed

text \<open>
  C8, as amended. For a fixed file system snapshot and fixed arguments, two runs that
  return, under any two schedules and with any two positive numbers of workers, return the
  same sorted list of matches, the same scanned count and the same error, provided one of
  them returns fewer matches than the cap. (When the cap is reached, which matches are
  dropped depends on the schedule.)
\<close>

theorem C8_deterministic_below_cap:
  assumes "walk n1 schedA (cfg lw r rd q m sk) = Some (ms1, sc1, e1)"
    and "walk n2 schedB (cfg lw r rd q m sk) = Some (ms2, sc2, e2)"
    and "0 < n1" "0 < n2" and "length ms1 < maxResults"
  shows "ms1 = ms2 \<and> sc1 = sc2 \<and> e1 = e2"
  using assms by (rule walk_deterministic)

lemma cfg2_cfg: "cfg lw ''root'' (Some tree2) ''abc'' ModeBoth True = cfg2 lw"
  by (simp add: cfg_def cfg2_eq)

theorem C8_deterministic_below_cap_witness:
  "walk numWorkers (sched2 @ finish numWorkers) (cfg id ''root'' (Some tree2) ''abc'' ModeBoth True)
     = Some ([''root/ABC123'', ''root/abc'', ''root/abc/report.txt'', ''root/abc/report.txt''],
             6, None)
   \<and> walk (Suc 0) (sched2 @ finish (Suc 0)) (cfg id ''root'' (Some tree2) ''abc'' ModeBoth True)
     = Some ([''root/ABC123'', ''root/abc'', ''root/abc/report.txt'', ''root/abc/report.txt''],
             6, None)
   \<and> 0 < numWorkers \<and> 0 < Suc 0
   \<and> [''root/ABC123'', ''root/abc'', ''root/abc/report.txt'', ''root/abc/report.txt'']
       = [''root/ABC123'', ''root/abc'', ''root/abc/report.txt'', ''root/abc/report.txt'']
   \<and> (6::nat) = 6 \<and> (None :: error option) = None"
proof -
  let ?L = "[''root/ABC123'', ''root/abc'', ''root/abc/report.txt'', ''root/abc/report.txt'']"
  have a: "walk numWorkers (sched2 @ finish numWorkers) (cfg id ''root'' (Some tree2) ''abc'' ModeBoth True)
             = Some (?L, 6, None)"
    unfolding cfg2_cfg by (rule run2_walk)
  have b: "walk (Suc 0) (sched2 @ finish (Suc 0)) (cfg id ''root'' (Some tree2) ''abc'' ModeBoth True)
             = Some (?L, 6, None)"
    unfolding cfg2_cfg by (rule run8)
  have p: "0 < Suc 0" by simp
  have len: "length ?L < maxResults" by (simp add: maxResults_def)
  note t = C8_deterministic_below_cap[OF a b numWorkers_pos p len]
  show ?thesis
    by (rule conjI[OF a conjI[OF b conjI[OF numWorkers_pos conjI[OF p t]]]])
qed

text \<open>The expected matches of the three modes.\<close>

lemma allInspected_cfg: "allInspected (cfg lw r rd q m sk) = allInspected (cfg lw r rd q m' sk)"
  by (cases rd) (simp_all add: allInspected_def seeds_def cfg_simps cong: if_cong)

lemma hit_modes:
  "hit (cfg lw r rd q ModeBoth sk) x = (hit (cfg lw r rd q ModeFiles sk) x \<or> hit (cfg lw r rd q ModeFolders sk) x)"
  "\<not> (hit (cfg lw r rd q ModeFiles sk) x \<and> hit (cfg lw r rd q ModeFolders sk) x)"
  by (auto simp: hit_def isMatch_def cfg_simps)

lemma matchesOf_modes:
  "matchesOf (cfg lw r rd q ModeBoth sk) xs
     = matchesOf (cfg lw r rd q ModeFiles sk) xs + matchesOf (cfg lw r rd q ModeFolders sk) xs"
proof (induction xs)
  case Nil
  then show ?case by (simp add: matchesOf_def)
next
  case (Cons a xs)
  have eq: "matchesOf c (a # xs) = (if hit c a then {#pathOf a#} else {#}) + matchesOf c xs" for c
    by (simp add: matchesOf_def)
  show ?case
    using hit_modes[of lw r rd q sk a] Cons
    by (cases "hit (cfg lw r rd q ModeFiles sk) a"; cases "hit (cfg lw r rd q ModeFolders sk) a")
       (simp_all add: eq)
qed

lemma expected_modes:
  "expected (cfg lw r rd q ModeBoth sk)
     = expected (cfg lw r rd q ModeFiles sk) + expected (cfg lw r rd q ModeFolders sk)"
  unfolding expected_def
  by (simp add: matchesOf_modes allInspected_cfg[of lw r rd q ModeFiles sk ModeBoth]
      allInspected_cfg[of lw r rd q ModeFolders sk ModeBoth])

text \<open>
  C6, as amended. For runs that return: in mode Files every returned path is the path of
  an entry of the tree that is not a directory; in mode Folders every returned path is the
  path of a directory entry; and when the run in mode Both returns fewer matches than the
  cap, its set of paths is the union of the sets of the runs in mode Files and in mode
  Folders.
\<close>

theorem C6_mode_partition:
  assumes F: "parallelWalk lw sF r rd q ModeFiles sk = Some (msF, nF, eF)"
    and D: "parallelWalk lw sD r rd q ModeFolders sk = Some (msD, nD, eD)"
    and B: "parallelWalk lw sB r rd q ModeBoth sk = Some (msB, nB, eB)"
  shows "(\<forall>p \<in> set msF. \<exists>es ns x. rd = Some es \<and> (ns, x) \<in> set (treeEntries es)
            \<and> p = chainPath r ns \<and> \<not> IsDir x)
       \<and> (\<forall>p \<in> set msD. \<exists>es ns x. rd = Some es \<and> (ns, x) \<in> set (treeEntries es)
            \<and> p = chainPath r ns \<and> IsDir x)
       \<and> (length msB < maxResults \<longrightarrow> set msB = set msF \<union> set msD)"
proof (intro conjI ballI impI)
  fix p assume "p \<in> set msF"
  from returned_entry[OF F this]
  show "\<exists>es ns x. rd = Some es \<and> (ns, x) \<in> set (treeEntries es) \<and> p = chainPath r ns \<and> \<not> IsDir x"
    unfolding isMatch_def by auto
next
  fix p assume "p \<in> set msD"
  from returned_entry[OF D this]
  show "\<exists>es ns x. rd = Some es \<and> (ns, x) \<in> set (treeEntries es) \<and> p = chainPath r ns \<and> IsDir x"
    unfolding isMatch_def by auto
next
  assume small: "length msB < maxResults"
  let ?cF = "cfg lw r rd q ModeFiles sk" and ?cD = "cfg lw r rd q ModeFolders sk"
    and ?cB = "cfg lw r rd q ModeBoth sk"
  from F D B have w: "walk numWorkers sF ?cF = Some (msF, nF, eF)"
    "walk numWorkers sD ?cD = Some (msD, nD, eD)"
    "walk numWorkers sB ?cB = Some (msB, nB, eB)"
    by (simp_all add: parallelWalk_walk)
  from walk_final(3)[OF w(3) numWorkers_pos small] have b: "mset msB = expected ?cB" by simp
  with small have "size (expected ?cB) < maxResults" by (metis size_mset)
  then have "size (expected ?cF) < maxResults" "size (expected ?cD) < maxResults"
    by (simp_all add: expected_modes)
  from walk_final_small(1)[OF w(1) numWorkers_pos this(1)]
    walk_final_small(1)[OF w(2) numWorkers_pos this(2)]
  have "mset msF = expected ?cF" "mset msD = expected ?cD" .
  with b have "mset msB = mset msF + mset msD" by (simp add: expected_modes)
  then have "set_mset (mset msB) = set_mset (mset msF + mset msD)" by simp
  then show "set msB = set msF \<union> set msD" by simp
qed

theorem C6_mode_partition_witness:
  "parallelWalk id (sched2 @ finish numWorkers) ''root'' (Some tree2) ''abc'' ModeFiles True
     = Some ([''root/abc/report.txt'', ''root/abc/report.txt''], 6, None)
   \<and> parallelWalk id (sched2 @ finish numWorkers) ''root'' (Some tree2) ''abc'' ModeFolders True
     = Some ([''root/ABC123'', ''root/abc''], 6, None)
   \<and> parallelWalk id (sched2 @ finish numWorkers) ''root'' (Some tree2) ''abc'' ModeBoth True
     = Some ([''root/ABC123'', ''root/abc'', ''root/abc/report.txt'', ''root/abc/report.txt''],
             6, None)
   \<and> (\<exists>es ns x. Some tree2 = Some es \<and> (ns, x) \<in> set (treeEntries es)
            \<and> ''root/abc/report.txt'' = chainPath ''root'' ns \<and> \<not> IsDir x)
   \<and> (\<exists>es ns x. Some tree2 = Some es \<and> (ns, x) \<in> set (treeEntries es)
            \<and> ''root/abc'' = chainPath ''root'' ns \<and> IsDir x)
   \<and> (\<exists>es ns x. Some tree2 = Some es \<and> (ns, x) \<in> set (treeEntries es)
            \<and> ''root/ABC123'' = chainPath ''root'' ns \<and> IsDir x)
   \<and> set [''root/ABC123'', ''root/abc'', ''root/abc/report.txt'', ''root/abc/report.txt'']
       = set [''root/abc/report.txt'', ''root/abc/report.txt'']
           \<union> set [''root/ABC123'', ''root/abc'']"
proof -
  let ?B = "[''root/ABC123'', ''root/abc'', ''root/abc/report.txt'', ''root/abc/report.txt'']"
  note t = C6_mode_partition[OF runS_files runS_folders run2]
  have mF: "''root/abc/report.txt'' \<in> set [''root/abc/report.txt'', ''root/abc/report.txt'']"
    by simp
  have mD1: "''root/abc'' \<in> set [''root/ABC123'', ''root/abc'']" by simp
  have mD2: "''root/ABC123'' \<in> set [''root/ABC123'', ''root/abc'']" by simp
  have len: "length ?B < maxResults" by (simp add: maxResults_def)
  note t1 = bspec[OF conjunct1[OF t] mF]
  note t2 = bspec[OF conjunct1[OF conjunct2[OF t]] mD1]
  note t3 = bspec[OF conjunct1[OF conjunct2[OF t]] mD2]
  note t4 = mp[OF conjunct2[OF conjunct2[OF t]] len]
  show ?thesis
    by (rule conjI[OF runS_files conjI[OF runS_folders conjI[OF run2
          conjI[OF t1 conjI[OF t2 conjI[OF t3 t4]]]]]])
qed

lemma wtI_child: "wtI (childItem d e) = wtE e"
  by (simp add: wtI_def wtE_def childItem_def)

lemma wtL_Cons: "wtL (e # es) = 10 + wtE e + wtL es"
  by (cases "(e # es)" rule: wtL.cases) (auto simp: wtI_def wtE_def childItem_def)

lemma wtI_simps: "wtI (d, None) = 6" "wtI (d, Some es) = 6 + wtL es"
  by (simp_all add: wtI_def)

lemma wtI_ge: "2 < wtI it"
  by (simp add: wtI_def)

lemmas pot_simps = wtI_simps wtL_Cons wtI_child wtI_ge

lemma walkInline_step_pot:
  "walkInline_step c s f = (s', fs) \<Longrightarrow> sum_list (map potI fs) < potI f"
  by (cases "(c, s, f)" rule: walkInline_step.cases)
     (auto simp: pot_simps simp del: wtL.simps split: if_splits)

lemma worker_step_pot:
  "worker_step c s p = Some (s', wk) \<Longrightarrow> \<not> panicked s \<Longrightarrow> \<not> panicked s' \<Longrightarrow>
     sum_list (map wtI (dirQueue s')) + potW wk < sum_list (map wtI (dirQueue s)) + potP p"
  by (cases "(c, s, p)" rule: worker_step.cases)
     (auto simp: pot_simps potW_def pendingDone_def simp del: wtL.simps
        split: if_splits list.splits option.splits)

lemma wtSeeds_simps: "wtSeeds r (e # es) = 2 + wtE e + wtSeeds r es"
  by (simp add: wtI_child)

lemma main_step_pot:
  "main_step c s m = Some s' \<Longrightarrow> mainpc s = m \<Longrightarrow> \<not> panicked s \<Longrightarrow> \<not> panicked s' \<Longrightarrow>
     potM c (mainpc s') + potC (closer s') + sum_list (map wtI (dirQueue s'))
       < potM c m + potC (closer s) + sum_list (map wtI (dirQueue s))"
  by (cases "(c, s, m)" rule: main_step.cases)
     (auto simp: pot_simps simp del: wtL.simps split: if_splits option.splits)

lemma closer_step_pot:
  "closer_step s k = Some s' \<Longrightarrow> closer s = k \<Longrightarrow> \<not> panicked s \<Longrightarrow> \<not> panicked s' \<Longrightarrow>
     potC (closer s') < potC k"
  by (cases "(s, k)" rule: closer_step.cases) (auto split: if_splits)

lemma potential_step:
  assumes inv: "struct_inv s" and st: "step c t s = Some s'"
  shows "potential c s' < potential c s"
proof -
  from inv have np: "\<not> panicked s" by (simp add: struct_inv_def)
  from struct_inv_step[OF inv st] have np': "\<not> panicked s'" by (simp add: struct_inv_def)
  show ?thesis
  proof (cases t)
    case Main
    with st have ms: "main_step c s (mainpc s) = Some s'"
      by (simp add: step_def split: if_splits)
    from main_step_pot[OF ms refl np np'] main_step_frame[OF ms refl] show ?thesis
      by (simp add: potential_def)
  next
    case Closer
    with st have cs: "closer_step s (closer s) = Some s'"
      by (simp add: step_def split: if_splits)
    from closer_step_pot[OF cs refl np np'] closer_step_frame[OF cs] show ?thesis
      by (simp add: potential_def)
  next
    case (Worker w)
    with st have w: "w < length (workers s)"
      by (simp add: step_def split: if_splits)
    obtain p stk where wk: "workers s ! w = (p, stk)" by (cases "workers s ! w")
    from sum_list_split[OF w, of potW] wk obtain R where
      old: "sum_list (map potW (workers s)) = R + potW (p, stk)" and
      new: "\<And>y. sum_list (map potW ((workers s)[w := y])) = R + potW y"
      by auto
    show ?thesis
    proof (cases stk)
      case Nil
      with st Worker w wk obtain s1 wk' where
        ws: "worker_step c s p = Some (s1, wk')" and s': "s' = s1\<lparr>workers := (workers s)[w := wk']\<rparr>"
        by (auto simp: step_def split: if_splits option.splits)
      from np' s' have "\<not> panicked s1" by simp
      from worker_step_pot[OF ws np this] worker_step_frame[OF ws] Nil show ?thesis
        by (simp add: potential_def s' old new potW_def)
    next
      case (Cons f fs)
      obtain s1 fs' where wi: "walkInline_step c s f = (s1, fs')"
        by (cases "walkInline_step c s f")
      with st Worker w wk Cons have s': "s' = s1\<lparr>workers := (workers s)[w := (p, fs' @ fs)]\<rparr>"
        by (auto simp: step_def split: if_splits)
      from walkInline_step_pot[OF wi] walkInline_step_frame[OF wi] Cons show ?thesis
        by (simp add: potential_def s' old new potW_def)
    qed
  qed
qed

text \<open>Totality of the steps of a busy worker.\<close>

lemma worker_step_busy: "p \<noteq> Recv \<Longrightarrow> p \<noteq> Exited \<Longrightarrow> \<exists>r. worker_step c s p = Some r"
  by (cases "(c, s, p)" rule: worker_step.cases) (auto split: option.splits)

lemma step_worker_busy:
  assumes "w < length (workers s)" "workers s ! w \<noteq> (Recv, [])" "workers s ! w \<noteq> (Exited, [])"
    "\<not> panicked s"
  shows "\<exists>s'. step c (Worker w) s = Some s'"
proof -
  obtain p stk where wk: "workers s ! w = (p, stk)" by (cases "workers s ! w")
  show ?thesis
  proof (cases stk)
    case Nil
    with assms wk have "p \<noteq> Recv" "p \<noteq> Exited" by auto
    from worker_step_busy[OF this, of c s] obtain r where "worker_step c s p = Some r" by blast
    with assms wk Nil show ?thesis
      by (cases r) (simp add: step_def)
  next
    case (Cons f fs)
    with assms wk show ?thesis
      by (cases "walkInline_step c s f") (simp add: step_def)
  qed
qed

lemma main_step_enabled:
  "m \<noteq> MWait \<Longrightarrow> m \<noteq> MRet \<Longrightarrow> \<not> closed s \<Longrightarrow> length (dirQueue s) < queueCap
     \<Longrightarrow> \<exists>s'. main_step c s m = Some s'"
  by (cases "(c, s, m)" rule: main_step.cases) (auto split: option.splits)

text \<open>No deadlock: as long as the caller has not returned, some thread can move.\<close>

lemma progress:
  assumes inv: "struct_inv s" and ne: "workers s \<noteq> []" and nr: "mainpc s \<noteq> MRet"
  shows "\<exists>t s'. step c t s = Some s'"
proof -
  have np: "\<not> panicked s" and acc: "pending s = int (pendingSum s)"
    and ck: "closerOK (closer s) (mainpc s) (closed s) (pending s)"
    and ex: "closed s \<or> list_all (\<lambda>wk. fst wk \<noteq> Exited) (workers s)"
    using inv unfolding struct_inv_def by blast+
  show ?thesis
  proof (cases "\<exists>w < length (workers s). workers s ! w \<noteq> (Recv, []) \<and> workers s ! w \<noteq> (Exited, [])")
    case True
    then obtain w where "w < length (workers s)" "workers s ! w \<noteq> (Recv, [])"
      "workers s ! w \<noteq> (Exited, [])" by blast
    from step_worker_busy[OF this np] show ?thesis by blast
  next
    case False
    then have idle: "\<And>w. w < length (workers s) \<Longrightarrow>
                       workers s ! w = (Recv, []) \<or> workers s ! w = (Exited, [])"
      by blast
    have "\<forall>wk \<in> set (workers s). pendW wk = 0"
    proof
      fix wk assume "wk \<in> set (workers s)"
      then obtain i where "i < length (workers s)" "workers s ! i = wk"
        by (auto simp: in_set_conv_nth)
      with idle[of i] show "pendW wk = 0" by (auto simp: pendW_def)
    qed
    then have pw: "sum_list (map pendW (workers s)) = 0" by simp
    show ?thesis
    proof (cases "\<exists>w < length (workers s). workers s ! w = (Recv, [])")
      case True
      then obtain w where w: "w < length (workers s)" "workers s ! w = (Recv, [])" by blast
      show ?thesis
      proof (cases "dirQueue s = [] \<and> \<not> closed s")
        case False
        with w np have "\<exists>s'. step c (Worker w) s = Some s'"
          by (cases "dirQueue s") (auto simp: step_def)
        then show ?thesis by blast
      next
        case True
        then have q: "dirQueue s = []" and nc: "\<not> closed s" by simp_all
        have room: "length (dirQueue s) < queueCap" by (simp add: q queueCap_def)
        show ?thesis
        proof (cases "mainpc s")
          case MWait
          with ck nc have "closer s = CWait \<or> closer s = CClose"
            by (cases "closer s") auto
          moreover from acc pw q MWait have "pending s = 0" by (simp add: pendingSum_def)
          ultimately have "\<exists>s'. step c Closer s = Some s'"
            using np nc by (auto simp: step_def)
          then show ?thesis by blast
        next
          case MRet
          with nr show ?thesis by simp
        next
          case other: MAdd
          from main_step_enabled[OF _ _ nc room, of "mainpc s" c] other np show ?thesis
            by (auto simp: step_def intro!: exI[of _ Main])
        next
          case other: MSendRoot
          from main_step_enabled[OF _ _ nc room, of "mainpc s" c] other np show ?thesis
            by (auto simp: step_def intro!: exI[of _ Main])
        next
          case other: MRead
          from main_step_enabled[OF _ _ nc room, of "mainpc s" c] other np show ?thesis
            by (auto simp: step_def intro!: exI[of _ Main])
        next
          case other: (MLoop es)
          from main_step_enabled[OF _ _ nc room, of "mainpc s" c] other np show ?thesis
            by (auto simp: step_def intro!: exI[of _ Main])
        next
          case other: (MSend e es)
          from main_step_enabled[OF _ _ nc room, of "mainpc s" c] other np show ?thesis
            by (auto simp: step_def intro!: exI[of _ Main])
        next
          case other: MSpawn
          from main_step_enabled[OF _ _ nc room, of "mainpc s" c] other np show ?thesis
            by (auto simp: step_def intro!: exI[of _ Main])
        qed
      qed
    next
      case False
      with idle have all: "\<And>w. w < length (workers s) \<Longrightarrow> workers s ! w = (Exited, [])"
        by blast
      then have la: "list_all (\<lambda>wk. wk = (Exited, [])) (workers s)"
        by (simp add: list_all_length)
      from ne obtain x xs where "workers s = x # xs" by (cases "workers s") auto
      with la ex have cl: "closed s" by auto
      with ck have "mainpc s = MWait \<or> mainpc s = MRet" by (cases "closer s") auto
      with nr have "mainpc s = MWait" by simp
      with la np have "\<exists>s'. step c Main s = Some s'" by (simp add: step_def)
      then show ?thesis by blast
    qed
  qed
qed

text \<open>From every reachable state the run can be continued until the caller returns.\<close>

lemma can_finish:
  assumes "struct_inv s" "workers s \<noteq> []"
  shows "\<exists>sched. mainpc (exec c sched s) = MRet"
  using assms
proof (induction "potential c s" arbitrary: s rule: less_induct)
  case less
  show ?case
  proof (cases "mainpc s = MRet")
    case True
    then have "mainpc (exec c [] s) = MRet" by simp
    then show ?thesis by blast
  next
    case False
    from progress[OF less.prems False] obtain t s' where st: "step c t s = Some s'" by blast
    from step_workers_length[OF st] less.prems(2) have ne: "workers s' \<noteq> []" by auto
    from less.hyps[OF potential_step[OF less.prems(1) st] struct_inv_step[OF less.prems(1) st] ne]
    obtain sched where "mainpc (exec c sched s') = MRet" by blast
    with st have "mainpc (exec c (t # sched) s) = MRet" by simp
    then show ?thesis by blast
  qed
qed

lemma walk_can_return:
  assumes "0 < n"
  shows "\<exists>sched'. walk n (sched @ sched') c \<noteq> None"
proof -
  let ?s = "exec c sched (init n)"
  have inv: "struct_inv ?s" by (rule struct_inv_exec[OF struct_inv_init])
  have "length (workers ?s) = n" by (simp add: exec_workers_length init_def)
  with assms have "workers ?s \<noteq> []" by auto
  from can_finish[OF inv this] obtain sched' where r: "mainpc (exec c sched' ?s) = MRet" by blast
  have "struct_inv (exec c sched' ?s)" by (rule struct_inv_exec[OF inv])
  then have "\<not> panicked (exec c sched' ?s)" by (simp add: struct_inv_def)
  with r have "walk n (sched @ sched') c \<noteq> None"
    by (simp add: walk_def exec_append result_def)
  then show ?thesis by blast
qed

text \<open>
  \<open>parallelWalk\<close> returns: every schedule can be continued to one under which the call
  returns.
\<close>

lemma parallelWalk_can_return: "\<exists>sched'. parallelWalk lw (sched @ sched') r rd q m sk \<noteq> None"
  unfolding parallelWalk_def using walk_can_return[OF numWorkers_pos] .

lemma fileSteps_Suc: "fileSteps w k (Suc n) = replicate k (Worker w) @ fileSteps w k n"
  by (simp add: fileSteps_def)

lemma pruned_File: "\<not> pruned lw sk (File n)"
  by (simp add: pruned_def)

text \<open>Files that match: four steps each (lines 199, 203, 242 and 244).\<close>

lemma exec_files_match:
  assumes "w < length (workers s)" "workers s ! w = (Loop d (map File ns @ rest), [])"
    "\<not> panicked s" "\<forall>n \<in> set ns. isMatch (mapLower c) (query c) (mode c) d (File n)"
    "found s + length ns \<le> maxResults"
  shows "exec c (fileSteps w 4 (length ns)) s =
           s\<lparr>scanned := scanned s + length ns, found := found s + length ns,
             matched := matched s @ map (Join d) ns,
             workers := (workers s)[w := (Loop d rest, [])]\<rparr>"
  using assms
proof (induction ns arbitrary: s)
  case Nil
  then show ?case by (simp add: fileSteps_def list_update_same_conv[THEN iffD2])
next
  case (Cons n ns)
  let ?s4 = "s\<lparr>scanned := scanned s + 1, found := found s + 1,
               matched := matched s @ [Join d n],
               workers := (workers s)[w := (Loop d (map File ns @ rest), [])]\<rparr>"
  have four: "replicate 4 (Worker w) = [Worker w, Worker w, Worker w, Worker w]"
    by (simp add: numeral_eq_Suc)
  from Cons.prems have f: "found s < maxResults" by simp
  have s4: "exec c (replicate 4 (Worker w)) s = ?s4"
    unfolding four using Cons.prems(1,2,3,4) f
    by (simp add: step_def pruned_File)
  have ih: "exec c (fileSteps w 4 (length ns)) ?s4 =
           ?s4\<lparr>scanned := scanned ?s4 + length ns, found := found ?s4 + length ns,
             matched := matched ?s4 @ map (Join d) ns,
             workers := (workers ?s4)[w := (Loop d rest, [])]\<rparr>"
    by (rule Cons.IH) (use Cons.prems in simp_all)
  show ?case
    unfolding length_Cons fileSteps_Suc exec_append s4 ih
    by simp
qed

text \<open>Files that do not match: three steps each (lines 199, 203 and 230).\<close>

lemma exec_files_nomatch:
  assumes "w < length (workers s)" "workers s ! w = (Loop d (map File ns @ rest), [])"
    "\<not> panicked s" "\<forall>n \<in> set ns. \<not> isMatch (mapLower c) (query c) (mode c) d (File n)"
    "found s < maxResults"
  shows "exec c (fileSteps w 3 (length ns)) s =
           s\<lparr>scanned := scanned s + length ns,
             workers := (workers s)[w := (Loop d rest, [])]\<rparr>"
  using assms
proof (induction ns arbitrary: s)
  case Nil
  then show ?case by (simp add: fileSteps_def list_update_same_conv[THEN iffD2])
next
  case (Cons n ns)
  let ?s3 = "s\<lparr>scanned := scanned s + 1,
               workers := (workers s)[w := (Loop d (map File ns @ rest), [])]\<rparr>"
  have three: "replicate 3 (Worker w) = [Worker w, Worker w, Worker w]"
    by (simp add: numeral_eq_Suc)
  have s3: "exec c (replicate 3 (Worker w)) s = ?s3"
    unfolding three using Cons.prems
    by (simp add: step_def pruned_File)
  have ih: "exec c (fileSteps w 3 (length ns)) ?s3 =
           ?s3\<lparr>scanned := scanned ?s3 + length ns,
             workers := (workers ?s3)[w := (Loop d rest, [])]\<rparr>"
    by (rule Cons.IH) (use Cons.prems in simp_all)
  show ?case
    unfolding length_Cons fileSteps_Suc exec_append s3 ih
    by simp
qed

lemma isMatch_empty: "isMatch lw [] m d e = modeOK m e"
  by (cases "ToLower lw (entryName e)") (simp_all add: isMatch_def modeOK_def)

lemma factsBig:
  "\<not> pruned lw True bigDir" "IsDir bigDir" "childItem pR bigDir = (pD, Some bigFiles)"
  "Join pR (entryName bigDir) = pD" "modeOK ModeBoth e" "modeOK ModeFolders bigDir"
  "\<not> modeOK ModeFiles bigDir" "modeOK ModeFiles (File n)" "\<not> modeOK ModeFolders (File n)"
  by (simp_all add: bigDir_def pR_def pD_def cls_defs modeOK_def)

lemma w_simps:
  "w0 12 = [Worker 0, Worker 0, Worker 0, Worker 0, Worker 0, Worker 0, Worker 0, Worker 0,
            Worker 0, Worker 0, Worker 0, Worker 0]"
  "w0 5 = [Worker 0, Worker 0, Worker 0, Worker 0, Worker 0]"
  by (simp_all add: w0_def numeral_eq_Suc)

lemma length_fnames: "length fnames = 9999"
  by (simp add: fnames_def)

lemma bigFiles_z: "bigFiles = map File fnames @ [File ''z'']"
  by (simp add: bigFiles_def)

lemma runY_1:
  "exec (cfgBig lw ModeBoth) (mainSteps @ w0 12) (init numWorkers) =
     \<lparr>dirQueue = [(pD, Some bigFiles)], closed = False, pending = 2, scanned = 1, found = 1,
      matched = [pD], workers = (Loop pD bigFiles, []) # replicate 15 (Recv, []),
      mainpc = MWait, closer = CWait, panicked = False\<rparr>"
  by (simp add: cfgBig_def mainSteps_def w_simps run_simps factsBig isMatch_empty)

lemma runY_2:
  "exec (cfgBig lw ModeBoth) ((mainSteps @ w0 12) @ fileSteps 0 4 9999) (init numWorkers) =
     \<lparr>dirQueue = [(pD, Some bigFiles)], closed = False, pending = 2, scanned = 10000,
      found = 10000, matched = pD # map (Join pD) fnames,
      workers = (Loop pD [File ''z''], []) # replicate 15 (Recv, []),
      mainpc = MWait, closer = CWait, panicked = False\<rparr>"
proof -
  let ?s = "\<lparr>dirQueue = [(pD, Some bigFiles)], closed = False, pending = 2, scanned = 1, found = 1,
      matched = [pD], workers = (Loop pD bigFiles, []) # replicate 15 (Recv, []),
      mainpc = MWait, closer = CWait, panicked = False\<rparr>"
  have "exec (cfgBig lw ModeBoth) (fileSteps 0 4 (length fnames)) ?s =
          ?s\<lparr>scanned := scanned ?s + length fnames, found := found ?s + length fnames,
             matched := matched ?s @ map (Join pD) fnames,
             workers := (workers ?s)[0 := (Loop pD [File ''z''], [])]\<rparr>"
    by (rule exec_files_match)
       (simp_all add: bigFiles_z length_fnames maxResults_def cfgBig_def isMatch_empty factsBig)
  then show ?thesis
    unfolding exec_append[of _ "mainSteps @ w0 12" "fileSteps 0 4 9999"] runY_1
    by (simp add: length_fnames)
qed

lemma runY_3:
  "exec (cfgBig lw ModeBoth) schedY (init numWorkers) =
     \<lparr>dirQueue = [], closed = True, pending = 0, scanned = 10000,
      found = 10000, matched = pD # map (Join pD) fnames,
      workers = replicate numWorkers (Recv, []),
      mainpc = MWait, closer = CDone, panicked = False\<rparr>"
  unfolding schedY_def
    exec_append[of _ "mainSteps @ w0 12" "fileSteps 0 4 9999 @ (w0 5 @ [Closer, Closer])"]
    exec_append[of _ "fileSteps 0 4 9999" "w0 5 @ [Closer, Closer]"]
    runY_2[unfolded exec_append[of _ "mainSteps @ w0 12" "fileSteps 0 4 9999"]]
  by (simp add: w_simps step_def pendingDone_def maxResults_def numWorkers_def replicate16)

lemma w_simps2:
  "w0 11 = [Worker 0, Worker 0, Worker 0, Worker 0, Worker 0, Worker 0, Worker 0, Worker 0,
            Worker 0, Worker 0, Worker 0]"
  "w0 10 = [Worker 0, Worker 0, Worker 0, Worker 0, Worker 0, Worker 0, Worker 0, Worker 0,
            Worker 0, Worker 0]"
  "w0 4 = [Worker 0, Worker 0, Worker 0, Worker 0]"
  "w0 3 = [Worker 0, Worker 0, Worker 0]"
  "w0 2 = [Worker 0, Worker 0]"
  "w1 (Suc 0) = [Worker (Suc 0)]"
  "w1 2 = [Worker (Suc 0), Worker (Suc 0)]"
  "w1 3 = [Worker (Suc 0), Worker (Suc 0), Worker (Suc 0)]"
  by (simp_all add: w0_def w1_def numeral_eq_Suc)

lemma length_fnames_z: "length (fnames @ [''z'']) = 10000"
  by (simp add: length_fnames)

lemma bigFiles_all: "bigFiles = map File (fnames @ [''z'']) @ []"
  by (simp add: bigFiles_def)

lemma runF_1:
  "exec (cfgBig lw ModeFiles) (mainSteps @ w0 11) (init numWorkers) =
     \<lparr>dirQueue = [(pD, Some bigFiles)], closed = False, pending = 2, scanned = 1, found = 0,
      matched = [], workers = (Loop pD bigFiles, []) # replicate 15 (Recv, []),
      mainpc = MWait, closer = CWait, panicked = False\<rparr>"
  by (simp add: cfgBig_def mainSteps_def w_simps2 run_simps factsBig isMatch_empty)

lemma runF_2:
  "exec (cfgBig lw ModeFiles) ((mainSteps @ w0 11) @ fileSteps 0 4 10000) (init numWorkers) =
     \<lparr>dirQueue = [(pD, Some bigFiles)], closed = False, pending = 2, scanned = 10001,
      found = 10000, matched = map (Join pD) (fnames @ [''z'']),
      workers = (Loop pD [], []) # replicate 15 (Recv, []),
      mainpc = MWait, closer = CWait, panicked = False\<rparr>"
proof -
  let ?s = "\<lparr>dirQueue = [(pD, Some bigFiles)], closed = False, pending = 2, scanned = 1, found = 0,
      matched = [], workers = (Loop pD bigFiles, []) # replicate 15 (Recv, []),
      mainpc = MWait, closer = CWait, panicked = False\<rparr>"
  let ?ns = "fnames @ [''z'']"
  have "exec (cfgBig lw ModeFiles) (fileSteps 0 4 (length ?ns)) ?s =
          ?s\<lparr>scanned := scanned ?s + length ?ns, found := found ?s + length ?ns,
             matched := matched ?s @ map (Join pD) ?ns,
             workers := (workers ?s)[0 := (Loop pD [], [])]\<rparr>"
    by (rule exec_files_match)
       (simp_all add: bigFiles_z length_fnames maxResults_def cfgBig_def
          isMatch_empty factsBig)
  then show ?thesis
    unfolding exec_append[of _ "mainSteps @ w0 11" "fileSteps 0 4 10000"] runF_1
      length_fnames_z
    by simp
qed

lemma runF_3:
  "exec (cfgBig lw ModeFiles) schedF (init numWorkers) =
     \<lparr>dirQueue = [], closed = True, pending = 0, scanned = 10001,
      found = 10000, matched = map (Join pD) (fnames @ [''z'']),
      workers = replicate numWorkers (Recv, []),
      mainpc = MWait, closer = CDone, panicked = False\<rparr>"
  unfolding schedF_def
    exec_append[of _ "mainSteps @ w0 11" "fileSteps 0 4 10000 @ (w0 5 @ [Closer, Closer])"]
    exec_append[of _ "fileSteps 0 4 10000" "w0 5 @ [Closer, Closer]"]
    runF_2[unfolded exec_append[of _ "mainSteps @ w0 11" "fileSteps 0 4 10000"]]
  by (simp add: w_simps step_def pendingDone_def maxResults_def numWorkers_def replicate16)

lemma runD_1:
  "exec (cfgBig lw ModeFolders) (mainSteps @ w0 12) (init numWorkers) =
     \<lparr>dirQueue = [(pD, Some bigFiles)], closed = False, pending = 2, scanned = 1, found = 1,
      matched = [pD], workers = (Loop pD bigFiles, []) # replicate 15 (Recv, []),
      mainpc = MWait, closer = CWait, panicked = False\<rparr>"
  by (simp add: cfgBig_def mainSteps_def w_simps run_simps factsBig isMatch_empty)

lemma runD_chunk:
  assumes "q = [(pD, Some bigFiles)] \<and> p = 2 \<or> q = [] \<and> p = 1"
  shows "exec (cfgBig lw ModeFolders) (fileSteps 0 3 10000)
     \<lparr>dirQueue = q, closed = False, pending = p, scanned = k, found = 1,
      matched = [pD], workers = (Loop pD bigFiles, []) # replicate 15 (Recv, []),
      mainpc = MWait, closer = CWait, panicked = False\<rparr> =
     \<lparr>dirQueue = q, closed = False, pending = p, scanned = k + 10000, found = 1,
      matched = [pD], workers = (Loop pD [], []) # replicate 15 (Recv, []),
      mainpc = MWait, closer = CWait, panicked = False\<rparr>"
proof -
  let ?s = "\<lparr>dirQueue = q, closed = False, pending = p, scanned = k, found = 1,
      matched = [pD], workers = (Loop pD bigFiles, []) # replicate 15 (Recv, []),
      mainpc = MWait, closer = CWait, panicked = False\<rparr>"
  let ?ns = "fnames @ [''z'']"
  have "exec (cfgBig lw ModeFolders) (fileSteps 0 3 (length ?ns)) ?s =
          ?s\<lparr>scanned := scanned ?s + length ?ns,
             workers := (workers ?s)[0 := (Loop pD [], [])]\<rparr>"
    by (rule exec_files_nomatch)
       (simp_all add: bigFiles_z length_fnames maxResults_def cfgBig_def
          isMatch_empty factsBig)
  then show ?thesis
    unfolding length_fnames_z by simp
qed

lemma runD_3:
  "exec (cfgBig lw ModeFolders) schedD (init numWorkers) =
     \<lparr>dirQueue = [], closed = True, pending = 0, scanned = 20001,
      found = 1, matched = [pD],
      workers = replicate numWorkers (Recv, []),
      mainpc = MWait, closer = CDone, panicked = False\<rparr>"
proof -
  have a: "exec (cfgBig lw ModeFolders) ((mainSteps @ w0 12) @ fileSteps 0 3 10000 @ w0 4)
             (init numWorkers) =
     \<lparr>dirQueue = [], closed = False, pending = 1, scanned = 10001, found = 1,
      matched = [pD], workers = (Loop pD bigFiles, []) # replicate 15 (Recv, []),
      mainpc = MWait, closer = CWait, panicked = False\<rparr>"
    unfolding exec_append[of _ "mainSteps @ w0 12" "fileSteps 0 3 10000 @ w0 4"]
      exec_append[of _ "fileSteps 0 3 10000" "w0 4"] runD_1
    by (subst runD_chunk)
       (simp_all add: w_simps2 step_def pendingDone_def maxResults_def)
  have b: "schedD = ((mainSteps @ w0 12) @ fileSteps 0 3 10000 @ w0 4)
             @ fileSteps 0 3 10000 @ (w0 2 @ [Closer, Closer])"
    by (simp add: schedD_def)
  show ?thesis
    unfolding b
      exec_append[of _ "(mainSteps @ w0 12) @ fileSteps 0 3 10000 @ w0 4"
         "fileSteps 0 3 10000 @ (w0 2 @ [Closer, Closer])"]
      exec_append[of _ "fileSteps 0 3 10000" "w0 2 @ [Closer, Closer]"] a
    by (subst runD_chunk)
       (simp_all add: w_simps2 step_def pendingDone_def maxResults_def numWorkers_def replicate16)
qed

lemma length_fnamesA: "length fnamesA = 9998"
  by (simp add: fnamesA_def)

lemma fnames_split: "fnames = fnamesA @ [fname 9998]"
proof -
  have "[0..<9999] = [0..<9998] @ [9998::nat]"
    using upt_Suc_append[of 0 9998] by simp
  then show ?thesis by (simp add: fnames_def fnamesA_def)
qed

lemma bigFiles_A: "bigFiles = map File fnamesA @ [File (fname 9998), File ''z'']"
  by (simp add: bigFiles_def fnames_split)

lemma bigFiles_Cons: "bigFiles = File (fname 0) # bigRest"
proof -
  have "[0..<9999] = 0 # [1..<9999::nat]"
    using upt_conv_Cons[of 0 9999] by simp
  then show ?thesis by (simp add: bigFiles_def bigRest_def fnames_def)
qed

lemma worker_step_Loop_capped:
  "maxResults \<le> found s \<Longrightarrow> worker_step c s (Loop d es) = Some (s, (Done, []))"
  by (cases es) simp_all

lemma replicate16b: "replicate 16 x = x # x # replicate 14 x"
  by (simp add: numeral_eq_Suc)

lemma runX_1:
  "exec (cfgBig lw ModeBoth) (mainSteps @ w0 10 @ w1 2) (init numWorkers) =
     \<lparr>dirQueue = [(pD, Some bigFiles)], closed = False, pending = 2, scanned = 1, found = 1,
      matched = [pD],
      workers = (Recv, []) # (Loop pD bigFiles, []) # replicate 14 (Recv, []),
      mainpc = MWait, closer = CWait, panicked = False\<rparr>"
  by (simp add: cfgBig_def mainSteps_def w_simps2 init_def step_def pendingDone_def
      maxResults_def queueCap_def numWorkers_def replicate16b factsBig isMatch_empty)

lemma runX_2:
  "exec (cfgBig lw ModeBoth) ((mainSteps @ w0 10 @ w1 2) @ fileSteps (Suc 0) 4 9998)
       (init numWorkers) =
     \<lparr>dirQueue = [(pD, Some bigFiles)], closed = False, pending = 2, scanned = 9999,
      found = 9999, matched = pD # map (Join pD) fnamesA,
      workers = (Recv, []) # (Loop pD [File (fname 9998), File ''z''], [])
                  # replicate 14 (Recv, []),
      mainpc = MWait, closer = CWait, panicked = False\<rparr>"
proof -
  let ?s = "\<lparr>dirQueue = [(pD, Some bigFiles)], closed = False, pending = 2, scanned = 1, found = 1,
      matched = [pD],
      workers = (Recv, []) # (Loop pD bigFiles, []) # replicate 14 (Recv, []),
      mainpc = MWait, closer = CWait, panicked = False\<rparr>"
  have "exec (cfgBig lw ModeBoth) (fileSteps (Suc 0) 4 (length fnamesA)) ?s =
          ?s\<lparr>scanned := scanned ?s + length fnamesA, found := found ?s + length fnamesA,
             matched := matched ?s @ map (Join pD) fnamesA,
             workers := (workers ?s)[Suc 0 := (Loop pD [File (fname 9998), File ''z''], [])]\<rparr>"
    by (rule exec_files_match)
       (simp_all add: bigFiles_A length_fnamesA maxResults_def cfgBig_def isMatch_empty factsBig)
  then show ?thesis
    unfolding exec_append[of _ "mainSteps @ w0 10 @ w1 2" "fileSteps (Suc 0) 4 9998"] runX_1
    by (simp add: length_fnamesA)
qed

lemma runX_3:
  "exec (cfgBig lw ModeBoth) schedX (init numWorkers) =
     \<lparr>dirQueue = [], closed = True, pending = 0, scanned = 10001,
      found = 10001,
      matched = pD # map (Join pD) fnamesA @ [Join pD (fname 9998), Join pD (fname 0)],
      workers = replicate numWorkers (Recv, []),
      mainpc = MWait, closer = CDone, panicked = False\<rparr>"
  unfolding schedX_def
    exec_append[of _ "mainSteps @ w0 10 @ w1 2"
       "fileSteps (Suc 0) 4 9998 @ (w1 1 @ w0 3 @ w1 3 @ w0 5 @ w1 2 @ [Closer, Closer])"]
    exec_append[of _ "fileSteps (Suc 0) 4 9998"
       "w1 1 @ w0 3 @ w1 3 @ w0 5 @ w1 2 @ [Closer, Closer]"]
    runX_2[unfolded exec_append[of _ "mainSteps @ w0 10 @ w1 2" "fileSteps (Suc 0) 4 9998"]]
  by (simp add: w_simps w_simps2 step_def pendingDone_def maxResults_def numWorkers_def
      replicate16b bigFiles_Cons pruned_File cfgBig_def isMatch_empty factsBig
      worker_step_Loop_capped)

lemma cfgBig_eq:
  "\<lparr>root = ''r'', rootDir = Some [bigDir], query = [], mode = m, skipSystemDirs = True, mapLower = lw\<rparr>
     = cfgBig lw m"
  by (simp add: cfgBig_def pR_def)

lemma rootDir_cfgBig: "rootDir (cfgBig lw m) = Some [bigDir]"
  by (simp add: cfgBig_def)

lemma resX:
  "parallelWalk lw (schedX @ finish numWorkers) ''r'' (Some [bigDir]) [] ModeBoth True =
     Some (sort (pD # map (Join pD) fnamesA @ [Join pD (fname 9998), Join pD (fname 0)]),
           10001, None)"
  unfolding parallelWalk_def cfgBig_eq
  by (subst walk_from_state[OF runX_3]) (simp_all add: rootDir_cfgBig del: sort_key_simps)

lemma resY:
  "parallelWalk lw (schedY @ finish numWorkers) ''r'' (Some [bigDir]) [] ModeBoth True =
     Some (sort (pD # map (Join pD) fnames), 10000, None)"
  unfolding parallelWalk_def cfgBig_eq
  by (subst walk_from_state[OF runY_3]) (simp_all add: rootDir_cfgBig del: sort_key_simps)

lemma resF:
  "parallelWalk lw (schedF @ finish numWorkers) ''r'' (Some [bigDir]) [] ModeFiles True =
     Some (sort (map (Join pD) (fnames @ [''z''])), 10001, None)"
  unfolding parallelWalk_def cfgBig_eq
  by (subst walk_from_state[OF runF_3]) (simp_all add: rootDir_cfgBig del: sort_key_simps)

lemma resD:
  "parallelWalk lw (schedD @ finish numWorkers) ''r'' (Some [bigDir]) [] ModeFolders True =
     Some (sort [pD], 20001, None)"
  unfolding parallelWalk_def cfgBig_eq
  by (subst walk_from_state[OF runD_3]) (simp_all add: rootDir_cfgBig del: sort_key_simps)

text \<open>
  C4. The claim fails on the code: the test of line 199 and the increment of line 244 are
  separate steps. On a root with one directory \<open>d\<close> of ten thousand files and the empty
  query, \<open>d\<close> is queued twice; under the schedule \<open>schedX\<close> two workers pass the test
  while \<open>found\<close> is 9999 and both record a match: the run returns 10001 matches, one
  more than \<open>maxResults\<close>.
\<close>

theorem C4_cap_overrun:
  "map_option (\<lambda>(ms, n, e). length ms)
     (parallelWalk lw (schedX @ finish numWorkers) ''r'' (Some [bigDir]) [] ModeBoth True)
     = Some (maxResults + 1)"
  unfolding resX by (simp add: length_fnamesA maxResults_def)

text \<open>
  C8 as stated fails: on the same input the schedules \<open>schedX\<close> and \<open>schedY\<close> return
  lists of different lengths and different scanned counts.
\<close>

theorem C8_counterexample:
  "parallelWalk id (schedX @ finish numWorkers) ''r'' (Some [bigDir]) [] ModeBoth True
     \<noteq> parallelWalk id (schedY @ finish numWorkers) ''r'' (Some [bigDir]) [] ModeBoth True
   \<and> map_option (\<lambda>(ms, n, e). (length ms, n))
        (parallelWalk id (schedX @ finish numWorkers) ''r'' (Some [bigDir]) [] ModeBoth True)
       = Some (10001, 10001)
   \<and> map_option (\<lambda>(ms, n, e). (length ms, n))
        (parallelWalk id (schedY @ finish numWorkers) ''r'' (Some [bigDir]) [] ModeBoth True)
       = Some (10000, 10000)"
  unfolding resX resY by (simp add: length_fnamesA length_fnames)

subsection \<open>The paths below the directory\<close>

lemma splitSep_nosep: "CHR ''/'' \<notin> set n \<Longrightarrow> splitSep acc n = [rev acc @ n]"
  by (induction n arbitrary: acc) auto

lemma Join_pD:
  assumes "CHR ''/'' \<notin> set n" "length n = 5"
  shows "Join pD n = ''r/d/'' @ n"
proof -
  from assms(2) have ne: "n \<noteq> []" "n \<noteq> ''.''" "n \<noteq> ''..''" by auto
  have "splitSep [] (''r/d/'' @ n) = [''r'', ''d'', n]"
    using splitSep_nosep[OF assms(1), of "[]"] by simp
  with ne show ?thesis
    by (simp add: Join_def Clean_def pD_def)
qed

lemma digitChar_nosep: "k < 10 \<Longrightarrow> CHR ''/'' \<noteq> digitChar k"
proof -
  assume "k < 10"
  then have "''0123456789'' ! k \<in> set ''0123456789''"
    by (intro nth_mem) simp
  then show ?thesis
    unfolding digitChar_def by auto
qed

lemma fname_simple: "CHR ''/'' \<notin> set (fname i)" "length (fname i) = 5"
  by (simp_all add: fname_def digitChar_nosep)

lemma pZ_fresh: "Join pD ''z'' \<notin> set (pD # map (Join pD) fnames)"
proof -
  have z: "Join pD ''z'' = ''r/d/z''" by (simp add: pD_def cls_defs)
  have 1: "Join pD ''z'' \<noteq> pD" by (simp add: pD_def cls_defs)
  have 2: "Join pD ''z'' \<noteq> Join pD n" if "n \<in> set fnames" for n
  proof -
    from that obtain i where "n = fname i" by (auto simp: fnames_def)
    with Join_pD[OF fname_simple, of i] have "Join pD n = ''r/d/'' @ fname i" by simp
    moreover have "fname i \<noteq> ''z''" using fname_simple(2)[of i] by auto
    ultimately show ?thesis unfolding z by simp
  qed
  from 1 2 show ?thesis by auto
qed

text \<open>
  C6 as stated fails at the cap: in mode Both the run under \<open>schedY\<close> records the
  directory and 9999 files and stops, in mode Files the run under \<open>schedF\<close> records the ten
  thousand files, among them \<open>r/d/z\<close>, which the run in mode Both does not return.
\<close>

theorem C6_counterexample:
  "parallelWalk id (schedY @ finish numWorkers) ''r'' (Some [bigDir]) [] ModeBoth True \<noteq> None
   \<and> parallelWalk id (schedF @ finish numWorkers) ''r'' (Some [bigDir]) [] ModeFiles True \<noteq> None
   \<and> parallelWalk id (schedD @ finish numWorkers) ''r'' (Some [bigDir]) [] ModeFolders True \<noteq> None
   \<and> set (fst (the (parallelWalk id (schedY @ finish numWorkers) ''r'' (Some [bigDir]) []
                       ModeBoth True)))
       \<noteq> set (fst (the (parallelWalk id (schedF @ finish numWorkers) ''r'' (Some [bigDir]) []
                           ModeFiles True)))
         \<union> set (fst (the (parallelWalk id (schedD @ finish numWorkers) ''r'' (Some [bigDir]) []
                             ModeFolders True)))"
proof -
  have a: "Join pD ''z'' \<in> set (map (Join pD) (fnames @ [''z''])) \<union> set [pD]"
    by simp
  from set_neqI[OF a pZ_fresh]
  have "set (pD # map (Join pD) fnames) \<noteq> set (map (Join pD) (fnames @ [''z''])) \<union> set [pD]"
    by blast
  then show ?thesis
    unfolding resY resF resD by (simp del: sort_key_simps)
qed

text \<open>The names of the big directory are pairwise different, as those of a directory are.\<close>

lemma digitChar_inj: "k < 10 \<Longrightarrow> l < 10 \<Longrightarrow> digitChar k = digitChar l \<Longrightarrow> k = l"
proof -
  assume a: "k < 10" "l < 10" "digitChar k = digitChar l"
  have d: "distinct ''0123456789''" by simp
  have len: "length ''0123456789'' = 10" by simp
  from a(1,2) len have "k < length ''0123456789''" "l < length ''0123456789''" by simp_all
  from nth_eq_iff_index_eq[OF d this] a(3) show ?thesis
    unfolding digitChar_def by blast
qed

lemma div_mod_10_eq: "(a::nat) div 10 = b div 10 \<Longrightarrow> a mod 10 = b mod 10 \<Longrightarrow> a = b"
  by (metis div_mult_mod_eq)

lemma fname_inj:
  assumes "i < 10000" "j < 10000" "fname i = fname j"
  shows "i = j"
proof -
  from assms(3) have e: "digitChar (i div 1000 mod 10) = digitChar (j div 1000 mod 10)"
    "digitChar (i div 100 mod 10) = digitChar (j div 100 mod 10)"
    "digitChar (i div 10 mod 10) = digitChar (j div 10 mod 10)"
    "digitChar (i mod 10) = digitChar (j mod 10)"
    by (simp_all add: fname_def)
  have m: "x mod 10 < 10" for x :: nat by simp
  have d: "i div 1000 mod 10 = j div 1000 mod 10"
    "i div 100 mod 10 = j div 100 mod 10"
    "i div 10 mod 10 = j div 10 mod 10" "i mod 10 = j mod 10"
    by (rule digitChar_inj[OF m m e(1)], rule digitChar_inj[OF m m e(2)],
        rule digitChar_inj[OF m m e(3)], rule digitChar_inj[OF m m e(4)])
  from assms(1,2) have "i div 1000 < 10" "j div 1000 < 10" by simp_all
  with d(1) have 3: "i div 1000 = j div 1000" by simp
  have "i div 100 div 10 = i div 1000" "j div 100 div 10 = j div 1000"
    by (simp_all add: div_mult2_eq[symmetric])
  with 3 d(2) have 2: "i div 100 = j div 100" by (intro div_mod_10_eq[of "i div 100"]) simp_all
  have "i div 10 div 10 = i div 100" "j div 10 div 10 = j div 100"
    by (simp_all add: div_mult2_eq[symmetric])
  with 2 d(3) have 1: "i div 10 = j div 10" by (intro div_mod_10_eq[of "i div 10"]) simp_all
  from 1 d(4) show ?thesis by (rule div_mod_10_eq)
qed

lemma bigFiles_distinct: "distinct (map entryName bigFiles)"
proof -
  have "inj_on fname (set [0..<9999])"
    by (rule inj_onI) (auto intro: fname_inj)
  then have "distinct fnames"
    unfolding fnames_def by (simp add: distinct_map)
  moreover have "''z'' \<notin> set fnames"
  proof
    assume "''z'' \<in> set fnames"
    then obtain i where "''z'' = fname i" by (auto simp: fnames_def)
    then have "length ''z'' = length (fname i)" by simp
    then show False by (simp add: fname_simple)
  qed
  moreover have "map entryName bigFiles = fnames @ [''z'']"
    by (simp add: bigFiles_def comp_def)
  ultimately show ?thesis by simp
qed

subsection \<open>The run on the directory whose name is not ASCII\<close>

lemma factsI:
  assumes "lw nameDI = ''dist''"
  shows "pruned lw True eDI" "\<not> pruned lw True eKeep" "\<not> pruned lw True eX"
    "IsDir eDI" "IsDir eKeep" "\<not> IsDir eX"
    "childItem pR eKeep = (pKeep, Some [eX])" "childItem pKeep eX = (pKX, None)"
    "\<not> isMatch lw qX ModeBoth pR eKeep" "isMatch lw qX ModeBoth pKeep eX"
    "Join pR (entryName eKeep) = pKeep" "Join pKeep (entryName eX) = pKX"
proof -
  have "\<not> isASCII nameDI" by (simp add: nameDI_def isASCII_def)
  with assms show "pruned lw True eDI"
    by (simp add: eDI_def pruned_def ToLower_def skipName_def skipDirs_def)
qed (simp_all add: eDI_def eKeep_def eX_def pR_def pKeep_def pKX_def qX_def cls_defs)

lemma runI_state:
  assumes "lw nameDI = ''dist''"
  shows "exec (cfgI lw) sched2 (init numWorkers) =
     \<lparr>dirQueue = [], closed = True, pending = 0, scanned = 4, found = 2,
      matched = [pKX, pKX],
      workers = replicate numWorkers (Recv, []), mainpc = MWait, closer = CDone,
      panicked = False\<rparr>"
  by (simp add: cfgI_def sched2_def w8_def run_simps factsI[where lw = lw, OF assms])

text \<open>
  When the library lower-cases that name to \<open>dist\<close>, which is in the skip set, the
  directory is not listed: only the file below \<open>keep\<close> is returned.
\<close>

lemma run_dotted_I:
  assumes "lw nameDI = ''dist''"
  shows "parallelWalk lw (sched2 @ finish numWorkers) ''r''
           (Some [Dir nameDI (Some [File ''x.txt'']), Dir ''keep'' (Some [File ''x.txt''])])
           ''x'' ModeBoth True
         = Some ([''r/keep/x.txt'', ''r/keep/x.txt''], 4, None)"
proof -
  have c: "\<lparr>root = ''r'', rootDir = Some [Dir nameDI (Some [File ''x.txt'']),
               Dir ''keep'' (Some [File ''x.txt''])], query = ''x'', mode = ModeBoth,
             skipSystemDirs = True, mapLower = lw\<rparr> = cfgI lw"
    by (simp add: cfgI_def eDI_def eKeep_def eX_def pR_def qX_def)
  show ?thesis
    unfolding parallelWalk_def c
    by (subst walk_from_state[OF runI_state[where lw = lw, OF assms]]) (simp_all add: cfgI_def pKX_def)
qed

end
